theory Spec2Isabelle
  imports Complex_Main
begin

section \<open>The composer of SOL: \<open>sol/opt/composer.pyx\<close>\<close>

text \<open>
  \<open>compose_apps\<close> merges the path sets of several applications, asks the model builder
  (\<open>OptimizationGurobi\<close>) for one consumption constraint per resource, caps resources,
  lets every application add its named constraints, computes the weights of the
  applications and composes their objectives.

  The model builder, the topology, the applications, the path-set class \<open>PPTC\<close> and the
  network configuration are collaborators defined outside \<open>composer.pyx\<close>. The builder
  is embedded as the list of calls it receives; the values it returns are a parameter.
  The mutable objects reachable from an application (its \<open>PPTC\<close>, its resource-cost
  dictionary and the keyword dictionary of its objective) live in an explicit store, so
  that aliasing and copying are visible. Arithmetic on numpy floats is exact (no
  rounding); the values \<open>nan\<close> and \<open>\<plusminus>inf\<close> of a division by zero are kept. The calls
  to the logger have no effect on the result and are left out; the collaborators are
  taken not to raise.
\<close>

subsection \<open>Values\<close>

type_synonym addr = nat
type_synonym tc = nat
type_synonym path = "nat list"
type_synonym resource = string

text \<open>
  Modelled from the spec: the constants \<open>NODES\<close> and \<open>LINKS\<close> of \<open>sol.utils.const\<close> (the
  two ownership domains, node-scoped and link-scoped), which the composer imports. Any
  other value found in a resource-cost table is \<open>OtherMode\<close>.
\<close>

datatype mode = NODES | LINKS | OtherMode string

datatype elem = Node nat | Link nat nat

datatype pyval = PyStr string | PyNum real | PyTcs "tc list" | PyNone

datatype npfloat = Fin real | PosInf | NegInf | NaN

text \<open>
  The \<open>weights\<close> argument when it is not \<open>None\<close>: a scalar, or a one-dimensional numpy
  array. (A plain Python list fails the range check of the composer whatever it holds:
  the comparison of a list with \<open>1\<close> is false in Python 2 and a TypeError in Python 3.)
\<close>

datatype weights = Scalar npfloat | NdArray "npfloat list"

text \<open>
  Modelled from the spec: the members of the enumerations \<open>EpochComposition\<close> and
  \<open>Fairness\<close> of \<open>sol.utils.const\<close>; the composer names only \<open>AVG\<close> and \<open>WEIGHTED\<close>
  (its defaults) and hands the value on to the builder.
\<close>

datatype epoch_composition = AVG | OtherEpoch string
datatype fairness_mode = WEIGHTED | OtherFairness string

text \<open>
  The errors the composer raises itself. \<open>InvalidConfigException\<close> carries the two
  arguments of the format string \<open>ERR_UNKNOWN_MODE\<close> (a constant of \<open>sol.utils.const\<close>).
  \<open>ValueError\<close> is numpy's refusal to take the truth value of an array with more than
  one element, and Python's refusal to unpack an empty \<open>zip\<close>.
\<close>

datatype error = AssertionError | InvalidConfigException string mode | ValueError

subsection \<open>Collaborators\<close>

type_synonym pptc = "tc \<rightharpoonup> path set"
type_synonym kwargs = "string \<rightharpoonup> pyval"
type_synonym 'f resource_cost = "resource \<rightharpoonup> ('f \<times> mode)"

text \<open>
  An application. \<open>pptc\<close>, \<open>resource_cost\<close> and \<open>obj_kwargs\<close> are references into the
  store; \<open>obj_kind\<close>, \<open>obj_args\<close>, \<open>obj_kwargs\<close> are \<open>app.obj[0]\<close>, \<open>app.obj[1]\<close>,
  \<open>app.obj[2]\<close>; \<open>volume\<close> is what \<open>app.volume()\<close> returns.
\<close>

record app =
  name :: string
  pptc :: addr
  resource_cost :: addr
  obj_kind :: pyval
  obj_args :: "pyval list"
  obj_kwargs :: addr
  obj_tc :: "tc list"
  volume :: real

record topology =
  nodes :: "nat list"
  links :: "(nat \<times> nat) list"
  get_resources :: "elem \<Rightarrow> (resource \<rightharpoonup> real)"

text \<open>The object \<open>get_caps()\<close> returns, and the network configuration holding it.\<close>

record 'c netcaps =
  resources :: "resource list"
  caps :: "resource \<Rightarrow> 'c"

record 'c network_config =
  get_caps :: "'c netcaps option"

text \<open>The store: the objects by address, and the next free address.\<close>

record 'f heap =
  pptc_of :: "addr \<Rightarrow> pptc"
  rc_of :: "addr \<Rightarrow> 'f resource_cost"
  dict_of :: "addr \<Rightarrow> kwargs"
  next_addr :: addr

text \<open>
  Modelled from the spec: the model builder \<open>OptimizationGurobi\<close>, as the calls it
  receives, constructor first. Arguments passed by reference are recorded with the
  content they have at the time of the call.
\<close>

datatype ('f, 'c, 'o) call =
    Init topology pptc
  | Consume pptc resource "'f list" "elem \<rightharpoonup> real" mode
  | Cap resource 'c "tc list option"
  | AddNamedConstraints app
  | AddSingleObjective pyval "pyval list" kwargs
  | ComposeObjectives "'o list list" epoch_composition fairness_mode weights

text \<open>
  What a run of \<open>compose_apps\<close> leaves behind: the store, the calls the builder has
  received, and the exception raised (\<open>None\<close> when \<open>opt\<close> is returned).
\<close>

record ('f, 'c, 'o) outcome =
  final_heap :: "'f heap"
  calls :: "('f, 'c, 'o) call list"
  raised :: "error option"

subsection \<open>Merging the path sets (lines 35--37)\<close>

text \<open>\<open>PPTC()\<close>: a fresh, empty path set.\<close>

definition pptc_new :: "'f heap \<Rightarrow> 'f heap \<times> addr" where
  "pptc_new h =
     (h\<lparr>pptc_of := (pptc_of h)(next_addr h := Map.empty), next_addr := Suc (next_addr h)\<rparr>,
      next_addr h)"

text \<open>
  Modelled from the spec: \<open>PPTC.update\<close> of \<open>sol.path.paths\<close>. Merging the paths of a
  traffic class is a set union, not a replacement; a class absent from the argument keeps
  what it had.
\<close>

definition pptc_update :: "pptc \<Rightarrow> pptc \<Rightarrow> pptc" where
  "pptc_update dst src =
     (\<lambda>t. case src t of
            None \<Rightarrow> dst t
          | Some ps \<Rightarrow> (case dst t of None \<Rightarrow> Some ps | Some qs \<Rightarrow> Some (qs \<union> ps)))"

text \<open>\<open>all_pptc.update(app.pptc)\<close> on the store: the object at \<open>dst\<close> is written.\<close>

definition pptc_update_at :: "'f heap \<Rightarrow> addr \<Rightarrow> addr \<Rightarrow> 'f heap" where
  "pptc_update_at h dst src =
     h\<lparr>pptc_of := (pptc_of h)(dst := pptc_update (pptc_of h dst) (pptc_of h src))\<rparr>"

fun merge_loop :: "'f heap \<Rightarrow> addr \<Rightarrow> app list \<Rightarrow> 'f heap" where
  "merge_loop h all_pptc [] = h"
| "merge_loop h all_pptc (a # apps) = merge_loop (pptc_update_at h all_pptc (pptc a)) all_pptc apps"

definition merge_pptc :: "'f heap \<Rightarrow> app list \<Rightarrow> 'f heap \<times> addr" where
  "merge_pptc h apps = (case pptc_new h of (h1, all_pptc) \<Rightarrow> (merge_loop h1 all_pptc apps, all_pptc))"

subsection \<open>Consuming resources (lines 42--60)\<close>

text \<open>
  \<open>node_caps\<close> and \<open>link_caps\<close>: the dictionaries built by the two comprehensions over
  \<open>topo.nodes()\<close> and \<open>topo.links()\<close>.
\<close>

definition node_caps :: "topology \<Rightarrow> (elem \<rightharpoonup> (resource \<rightharpoonup> real))" where
  "node_caps topo = map_of (map (\<lambda>n. (Node n, get_resources topo (Node n))) (nodes topo))"

definition link_caps :: "topology \<Rightarrow> (elem \<rightharpoonup> (resource \<rightharpoonup> real))" where
  "link_caps topo =
     map_of (map (\<lambda>(u, v). (Link u v, get_resources topo (Link u v))) (links topo))"

text \<open>
  \<open>{n: caps[n][r] for n in caps if r in caps[n]}\<close>: the elements of \<open>caps\<close> that
  advertise \<open>r\<close>, with their capacity.
\<close>

definition capacities :: "(elem \<rightharpoonup> (resource \<rightharpoonup> real)) \<Rightarrow> resource \<Rightarrow> (elem \<rightharpoonup> real)" where
  "capacities cps r = (\<lambda>e. case cps e of None \<Rightarrow> None | Some res \<Rightarrow> res r)"

text \<open>
  \<open>rset\<close>: the union of the keys of all resource-cost tables. Python does not fix the
  order in which a set is enumerated; the loop over \<open>rset\<close> takes that order as a list
  \<open>rorder\<close>, and \<open>enumerates\<close> says that the list is an enumeration of the set.
\<close>

definition rset :: "'f heap \<Rightarrow> app list \<Rightarrow> resource set" where
  "rset h apps = (\<Union>a \<in> set apps. dom (rc_of h (resource_cost a)))"

definition enumerates :: "'a list \<Rightarrow> 'a set \<Rightarrow> bool" where
  "enumerates xs S \<longleftrightarrow> distinct xs \<and> set xs = S"

text \<open>\<open>[app.resource_cost[r] for app in apps if r in app.resource_cost]\<close>\<close>

definition cost_pairs :: "'f heap \<Rightarrow> app list \<Rightarrow> resource \<Rightarrow> ('f \<times> mode) list" where
  "cost_pairs h apps r = List.map_filter (\<lambda>a. rc_of h (resource_cost a) r) apps"

text \<open>
  The body of the loop over \<open>rset\<close> for one resource: the call to submit, or the
  exception. Unpacking \<open>zip(*[])\<close> into two names raises ValueError (this cannot happen
  for a member of \<open>rset\<close>). The \<open>assert\<close> statements of the module are taken as enabled.
\<close>

definition consume_step ::
  "'f heap \<Rightarrow> app list \<Rightarrow> topology \<Rightarrow> pptc \<Rightarrow> resource \<Rightarrow> error + ('f, 'c, 'o) call" where
  "consume_step h apps topo all_pptc r =
     (let pairs = cost_pairs h apps r;
          cost_funcs = map fst pairs;
          modes = map snd pairs
      in if pairs = [] then Inl ValueError
         else if card (set modes) \<noteq> 1 then Inl AssertionError
         else let mode = hd modes
              in if mode = NODES then
                   Inr (Consume all_pptc r cost_funcs (capacities (node_caps topo) r) mode)
                 else if mode = LINKS then
                   Inr (Consume all_pptc r cost_funcs (capacities (link_caps topo) r) mode)
                 else Inl (InvalidConfigException ''resource owner'' mode))"

text \<open>The loop over \<open>rset\<close>: the calls submitted, and the exception that ended it, if any.\<close>

fun consume_loop ::
  "'f heap \<Rightarrow> app list \<Rightarrow> topology \<Rightarrow> pptc \<Rightarrow> resource list \<Rightarrow> ('f, 'c, 'o) call list \<times> error option"
where
  "consume_loop h apps topo all_pptc [] = ([], None)"
| "consume_loop h apps topo all_pptc (r # rs) =
     (case consume_step h apps topo all_pptc r of
        Inl e \<Rightarrow> ([], Some e)
      | Inr c \<Rightarrow> (case consume_loop h apps topo all_pptc rs of (cs, res) \<Rightarrow> (c # cs, res)))"

subsection \<open>Capping (lines 63--68) and named constraints (lines 71--72)\<close>

definition cap_calls :: "'c network_config option \<Rightarrow> ('f, 'c, 'o) call list" where
  "cap_calls network_config =
     (case network_config of
        None \<Rightarrow> []
      | Some cfg \<Rightarrow>
          (case get_caps cfg of
             None \<Rightarrow> []
           | Some cps \<Rightarrow> map (\<lambda>r. Cap r (caps cps r) None) (resources cps)))"

definition named_constraint_calls :: "app list \<Rightarrow> ('f, 'c, 'o) call list" where
  "named_constraint_calls apps = map AddNamedConstraints apps"

subsection \<open>Weights (lines 75--79)\<close>

text \<open>numpy's true division of finite numbers, and \<open>1 - x\<close>.\<close>

definition np_divide :: "real \<Rightarrow> real \<Rightarrow> npfloat" where
  "np_divide v t =
     (if t \<noteq> 0 then Fin (v / t) else if 0 < v then PosInf else if v < 0 then NegInf else NaN)"

fun one_minus :: "npfloat \<Rightarrow> npfloat" where
  "one_minus (Fin x) = Fin (1 - x)"
| "one_minus PosInf = NegInf"
| "one_minus NegInf = PosInf"
| "one_minus NaN = NaN"

fun np_le :: "npfloat \<Rightarrow> npfloat \<Rightarrow> bool" where
  "np_le NaN y = False"
| "np_le x NaN = False"
| "np_le NegInf y = True"
| "np_le x PosInf = True"
| "np_le (Fin a) (Fin b) = (a \<le> b)"
| "np_le x y = False"

text \<open>\<open>weights = 1 - volumes/volumes.sum()\<close>\<close>

definition derived_weights :: "app list \<Rightarrow> weights" where
  "derived_weights apps =
     (let volumes = map volume apps
      in NdArray (map (\<lambda>v. one_minus (np_divide v (sum_list volumes))) volumes))"

text \<open>
  The truth value of a numpy array of booleans: that of its element when it has exactly
  one, false when it is empty, ValueError otherwise.
\<close>

fun truth :: "bool list \<Rightarrow> error + bool" where
  "truth [] = Inr False"
| "truth [b] = Inr b"
| "truth bs = Inl ValueError"

text \<open>
  \<open>assert 0 <= weights <= 1\<close>: the chained comparison is \<open>(0 <= weights) and (weights <= 1)\<close>,
  and takes the truth value of each comparison of the whole argument.
\<close>

fun check_weights :: "weights \<Rightarrow> error option" where
  "check_weights (Scalar w) =
     (if np_le (Fin 0) w \<and> np_le w (Fin 1) then None else Some AssertionError)"
| "check_weights (NdArray ws) =
     (case truth (map (np_le (Fin 0)) ws) of
        Inl e \<Rightarrow> Some e
      | Inr False \<Rightarrow> Some AssertionError
      | Inr True \<Rightarrow>
          (case truth (map (\<lambda>w. np_le w (Fin 1)) ws) of
             Inl e \<Rightarrow> Some e
           | Inr False \<Rightarrow> Some AssertionError
           | Inr True \<Rightarrow> None))"

definition compute_weights :: "app list \<Rightarrow> weights option \<Rightarrow> error + weights" where
  "compute_weights apps weights =
     (case weights of
        None \<Rightarrow> Inr (derived_weights apps)
      | Some w \<Rightarrow> (case check_weights w of None \<Rightarrow> Inr w | Some e \<Rightarrow> Inl e))"

subsection \<open>Objectives (lines 82--88)\<close>

text \<open>\<open>d.copy()\<close>: a new dictionary with the content of the one at \<open>a\<close>.\<close>

definition dict_copy :: "'f heap \<Rightarrow> addr \<Rightarrow> 'f heap \<times> addr" where
  "dict_copy h a =
     (h\<lparr>dict_of := (dict_of h)(next_addr h := dict_of h a), next_addr := Suc (next_addr h)\<rparr>,
      next_addr h)"

text \<open>\<open>dict(...)\<close>: a new dictionary with the given content.\<close>

definition dict_new :: "'f heap \<Rightarrow> kwargs \<Rightarrow> 'f heap \<times> addr" where
  "dict_new h d =
     (h\<lparr>dict_of := (dict_of h)(next_addr h := d), next_addr := Suc (next_addr h)\<rparr>,
      next_addr h)"

text \<open>\<open>dst.update(src)\<close>: the dictionary at \<open>dst\<close> is written, the keys of \<open>src\<close> win.\<close>

definition dict_update :: "'f heap \<Rightarrow> addr \<Rightarrow> addr \<Rightarrow> 'f heap" where
  "dict_update h dst src = h\<lparr>dict_of := (dict_of h)(dst := dict_of h dst ++ dict_of h src)\<rparr>"

text \<open>
  The loop over the applications. \<open>ret\<close> is the vector \<open>add_single_objective\<close> returns, as
  a function of all the calls the builder has received so far, this one included.
\<close>

fun add_objectives ::
  "(('f, 'c, 'o) call list \<Rightarrow> 'o list) \<Rightarrow> app list \<Rightarrow> 'f heap \<Rightarrow> ('f, 'c, 'o) call list \<Rightarrow>
   'o list list \<Rightarrow> 'f heap \<times> ('f, 'c, 'o) call list \<times> 'o list list"
where
  "add_objectives ret [] h cs objs = (h, cs, objs)"
| "add_objectives ret (a # apps) h cs objs =
     (case dict_copy h (obj_kwargs a) of (h1, kwargs) \<Rightarrow>
      case dict_new h1 [''varname'' \<mapsto> PyStr (name a), ''tcs'' \<mapsto> PyTcs (obj_tc a)] of (h2, d) \<Rightarrow>
      let h3 = dict_update h2 kwargs d;
          cs' = cs @ [AddSingleObjective (obj_kind a) (obj_args a) (dict_of h3 kwargs)];
          epoch_objs = ret cs'
      in add_objectives ret apps h3 cs' (objs @ [epoch_objs]))"

subsection \<open>\<open>compose_apps\<close>\<close>

definition compose_apps ::
  "(('f, 'c, 'o) call list \<Rightarrow> 'o list) \<Rightarrow> resource list \<Rightarrow> 'f heap \<Rightarrow> app list \<Rightarrow> topology \<Rightarrow>
   'c network_config option \<Rightarrow> epoch_composition \<Rightarrow> fairness_mode \<Rightarrow> weights option \<Rightarrow>
   ('f, 'c, 'o) outcome"
where
  "compose_apps ret rorder h apps topo network_config epoch_mode fairness weights =
     (case merge_pptc h apps of (h1, all_pptc) \<Rightarrow>
      let merged = pptc_of h1 all_pptc;
          opt = [Init topo merged]
      in case consume_loop h1 apps topo merged rorder of
           (cs, Some e) \<Rightarrow> \<lparr>final_heap = h1, calls = opt @ cs, raised = Some e\<rparr>
         | (cs, None) \<Rightarrow>
             let opt1 = opt @ cs @ cap_calls network_config @ named_constraint_calls apps
             in (case compute_weights apps weights of
                   Inl e \<Rightarrow> \<lparr>final_heap = h1, calls = opt1, raised = Some e\<rparr>
                 | Inr w \<Rightarrow>
                     (case add_objectives ret apps h1 opt1 [] of
                        (h2, opt2, objs) \<Rightarrow>
                          \<lparr>final_heap = h2,
                           calls = opt2 @ [ComposeObjectives objs epoch_mode fairness w],
                           raised = None\<rparr>)))"

section \<open>Notions used by the properties\<close>

text \<open>
  The merged path set: the content of \<open>all_pptc\<close> after the loop of lines 36--37, the
  object handed to the builder's constructor and to every \<open>consume\<close>.
\<close>

definition merged_pptc :: "'f heap \<Rightarrow> app list \<Rightarrow> pptc" where
  "merged_pptc h apps = (case merge_pptc h apps of (h1, p) \<Rightarrow> pptc_of h1 p)"

text \<open>The paths an application has for a traffic class (none when the class is absent).\<close>

definition paths_of :: "'f heap \<Rightarrow> app \<Rightarrow> tc \<Rightarrow> path set" where
  "paths_of h a t = (case pptc_of h (pptc a) t of None \<Rightarrow> {} | Some ps \<Rightarrow> ps)"

text \<open>
  A store is well formed for a list of applications when the objects they refer to have
  been allocated: a fresh object never aliases one of theirs.
\<close>

definition allocated :: "'f heap \<Rightarrow> app list \<Rightarrow> bool" where
  "allocated h apps \<longleftrightarrow>
     (\<forall>a \<in> set apps. pptc a < next_addr h \<and> resource_cost a < next_addr h \<and> obj_kwargs a < next_addr h)"

text \<open>Kinds of calls.\<close>

fun is_consume :: "('f, 'c, 'o) call \<Rightarrow> bool" where
  "is_consume (Consume p r fs cm m) = True"
| "is_consume c = False"

definition consumes :: "resource \<Rightarrow> ('f, 'c, 'o) call \<Rightarrow> bool" where
  "consumes r c = (case c of Consume p r' fs cm m \<Rightarrow> r' = r | _ \<Rightarrow> False)"

fun is_cap :: "('f, 'c, 'o) call \<Rightarrow> bool" where
  "is_cap (Cap r v t) = True"
| "is_cap c = False"

definition caps_resource :: "resource \<Rightarrow> ('f, 'c, 'o) call \<Rightarrow> bool" where
  "caps_resource r c = (case c of Cap r' v t \<Rightarrow> r' = r | _ \<Rightarrow> False)"

fun is_objective :: "('f, 'c, 'o) call \<Rightarrow> bool" where
  "is_objective (AddSingleObjective k a kw) = True"
| "is_objective c = False"

fun is_compose :: "('f, 'c, 'o) call \<Rightarrow> bool" where
  "is_compose (ComposeObjectives objs em fm w) = True"
| "is_compose c = False"

text \<open>
  The single-objective call of an application, as the spec words it: its objective kind,
  its positional arguments, and its keyword options with \<open>varname\<close> and \<open>tcs\<close> added.
\<close>

definition objective_call :: "'f heap \<Rightarrow> app \<Rightarrow> ('f, 'c, 'o) call" where
  "objective_call h a =
     AddSingleObjective (obj_kind a) (obj_args a)
       ((dict_of h (obj_kwargs a))(''varname'' \<mapsto> PyStr (name a), ''tcs'' \<mapsto> PyTcs (obj_tc a)))"

text \<open>
  A resource is declared consistently when all the applications that refer to it give
  one ownership domain, and that domain is \<open>NODES\<close> or \<open>LINKS\<close>.
\<close>

definition declared_ok :: "'f heap \<Rightarrow> app list \<Rightarrow> resource \<Rightarrow> bool" where
  "declared_ok h apps r \<longleftrightarrow>
     (\<exists>m. (m = NODES \<or> m = LINKS) \<and>
          (\<forall>a \<in> set apps. \<forall>f m'. rc_of h (resource_cost a) r = Some (f, m') \<longrightarrow> m' = m))"

text \<open>Whether a run ended with the configuration error.\<close>

fun is_config_error :: "error option \<Rightarrow> bool" where
  "is_config_error (Some (InvalidConfigException what m)) = True"
| "is_config_error e = False"

subsection \<open>A concrete scenario\<close>

text \<open>
  Two applications \<open>A\<close> (volume 10) and \<open>B\<close> (volume 30) that share the node resource
  \<open>bw\<close> and the traffic class 1, on a topology of three nodes and two links; \<open>C\<close>,
  \<open>D\<close> and \<open>E\<close> are \<open>B\<close> with other resource-cost tables (\<open>bw\<close> as a link resource;
  \<open>gpu\<close>, respectively \<open>mem\<close>, with an unknown ownership domain).
\<close>

definition ex_heap :: "nat heap" where
  "ex_heap =
     \<lparr>pptc_of = (\<lambda>_. Map.empty)
         (0 := [1 \<mapsto> {[1, 2], [1, 3, 2]}],
          1 := [1 \<mapsto> {[1, 2], [1, 4, 2]}, 2 \<mapsto> {[2, 3]}]),
      rc_of = (\<lambda>_. Map.empty)
         (2 := [''bw'' \<mapsto> (100, NODES), ''cpu'' \<mapsto> (101, NODES)],
          3 := [''bw'' \<mapsto> (200, NODES), ''lat'' \<mapsto> (201, LINKS)],
          6 := [''bw'' \<mapsto> (300, LINKS)],
          7 := [''gpu'' \<mapsto> (400, OtherMode ''rack'')],
          8 := [''mem'' \<mapsto> (400, OtherMode ''rack'')]),
      dict_of = (\<lambda>_. Map.empty)(4 := [''k'' \<mapsto> PyNum 1]),
      next_addr = 9\<rparr>"

definition ex_appA :: app where
  "ex_appA = \<lparr>name = ''A'', pptc = 0, resource_cost = 2, obj_kind = PyStr ''minlatency'',
              obj_args = [], obj_kwargs = 4, obj_tc = [1], volume = 10\<rparr>"

definition ex_appB :: app where
  "ex_appB = \<lparr>name = ''B'', pptc = 1, resource_cost = 3, obj_kind = PyStr ''maxflow'',
              obj_args = [PyNum 2], obj_kwargs = 5, obj_tc = [1, 2], volume = 30\<rparr>"

definition ex_appC :: app where
  "ex_appC = ex_appB\<lparr>name := ''C'', resource_cost := 6\<rparr>"

definition ex_appD :: app where
  "ex_appD = ex_appB\<lparr>name := ''D'', resource_cost := 7\<rparr>"

definition ex_appE :: app where
  "ex_appE = ex_appB\<lparr>name := ''E'', resource_cost := 8\<rparr>"

definition ex_topo :: topology where
  "ex_topo =
     \<lparr>nodes = [1, 2, 3], links = [(1, 2), (2, 3)],
      get_resources = (\<lambda>e. case e of
          Node n \<Rightarrow> (if n = 1 then [''bw'' \<mapsto> 5] else if n = 2 then [''cpu'' \<mapsto> 7] else Map.empty)
        | Link u v \<Rightarrow> (if u = 1 then [''lat'' \<mapsto> 9] else Map.empty))\<rparr>"

definition ex_ret :: "(nat, nat, nat) call list \<Rightarrow> nat list" where
  "ex_ret cs = [length cs]"

text \<open>A run in which \<open>A\<close> declares \<open>bw\<close> for nodes and \<open>C\<close> declares it for links.\<close>

definition ex_mismatch :: "(nat, nat, nat) outcome" where
  "ex_mismatch =
     compose_apps ex_ret [''cpu'', ''bw''] ex_heap [ex_appA, ex_appC] ex_topo None AVG WEIGHTED None"

text \<open>Runs with an unrecognised ownership domain, for two different resources.\<close>

definition ex_unknown_gpu :: "(nat, nat, nat) outcome" where
  "ex_unknown_gpu =
     compose_apps ex_ret [''cpu'', ''bw'', ''gpu''] ex_heap [ex_appA, ex_appD] ex_topo None AVG WEIGHTED None"

definition ex_unknown_mem :: "(nat, nat, nat) outcome" where
  "ex_unknown_mem =
     compose_apps ex_ret [''cpu'', ''bw'', ''mem''] ex_heap [ex_appA, ex_appE] ex_topo None AVG WEIGHTED None"

text \<open>The scenario run: \<open>A\<close> and \<open>B\<close> with derived weights and no network configuration.\<close>

definition ex_run :: "(nat, nat, nat) outcome" where
  "ex_run =
     compose_apps ex_ret [''cpu'', ''bw'', ''lat''] ex_heap [ex_appA, ex_appB] ex_topo None AVG WEIGHTED None"

text \<open>
  The scenario with a network configuration that caps \<open>bw\<close> and \<open>cpu\<close>, and the scenario
  with the explicit weight vector \<open>[0.5, 0.5]\<close>.
\<close>

definition ex_netconf :: "nat network_config" where
  "ex_netconf =
     \<lparr>get_caps = Some \<lparr>resources = [''bw'', ''cpu''], caps = (\<lambda>r. if r = ''bw'' then 3 else 4)\<rparr>\<rparr>"

definition ex_capped :: "(nat, nat, nat) outcome" where
  "ex_capped =
     compose_apps ex_ret [''cpu'', ''bw'', ''lat''] ex_heap [ex_appA, ex_appB] ex_topo
       (Some ex_netconf) AVG WEIGHTED None"

definition ex_weighted :: "(nat, nat, nat) outcome" where
  "ex_weighted =
     compose_apps ex_ret [''cpu'', ''bw'', ''lat''] ex_heap [ex_appA, ex_appB] ex_topo None AVG WEIGHTED
       (Some (NdArray [Fin (1 / 2), Fin (1 / 2)]))"

section \<open>Proofs\<close>

lemmas ex_defs = ex_heap_def ex_appA_def ex_appB_def ex_appC_def ex_appD_def ex_appE_def
  ex_topo_def ex_ret_def

lemmas run_defs = compose_apps_def merge_pptc_def pptc_new_def pptc_update_at_def consume_step_def
  cost_pairs_def compute_weights_def dict_copy_def dict_new_def dict_update_def Let_def

subsection \<open>The store\<close>

lemma merge_loop_frame:
  "rc_of (merge_loop h p apps) = rc_of h \<and> dict_of (merge_loop h p apps) = dict_of h \<and>
   next_addr (merge_loop h p apps) = next_addr h \<and>
   (\<forall>x. x \<noteq> p \<longrightarrow> pptc_of (merge_loop h p apps) x = pptc_of h x)"
  by (induction apps arbitrary: h) (auto simp: pptc_update_at_def)

lemma merge_pptc_frame:
  assumes "merge_pptc h apps = (h1, p)"
  shows "p = next_addr h" and "rc_of h1 = rc_of h" and "dict_of h1 = dict_of h"
    and "next_addr h1 = Suc (next_addr h)"
    and "x \<noteq> next_addr h \<Longrightarrow> pptc_of h1 x = pptc_of h x"
  using assms merge_loop_frame [of "fst (pptc_new h)" "next_addr h" apps]
  by (auto simp: merge_pptc_def pptc_new_def)

lemma add_objectives_frame:
  "add_objectives ret apps h cs objs = (h', cs', objs') \<Longrightarrow>
     pptc_of h' = pptc_of h \<and> rc_of h' = rc_of h \<and> next_addr h \<le> next_addr h' \<and>
     (\<forall>x. x < next_addr h \<longrightarrow> dict_of h' x = dict_of h x)"
proof (induction apps arbitrary: h cs objs)
  case Nil
  then show ?case by simp
next
  case (Cons a apps)
  let ?h3 = "dict_update (fst (dict_new (fst (dict_copy h (obj_kwargs a)))
                [''varname'' \<mapsto> PyStr (name a), ''tcs'' \<mapsto> PyTcs (obj_tc a)])) (next_addr h)
                (Suc (next_addr h))"
  from Cons.prems obtain cs1 objs1 where
    rec: "add_objectives ret apps ?h3 cs1 objs1 = (h', cs', objs')"
    by (auto simp: dict_copy_def dict_new_def Let_def)
  have step: "pptc_of ?h3 = pptc_of h" "rc_of ?h3 = rc_of h" "next_addr ?h3 = Suc (Suc (next_addr h))"
    "\<And>x. x < next_addr h \<Longrightarrow> dict_of ?h3 x = dict_of h x"
    by (simp_all add: dict_copy_def dict_new_def dict_update_def)
  from Cons.IH [OF rec] step show ?case by auto
qed

lemma cost_pairs_heap: "rc_of h1 = rc_of h \<Longrightarrow> cost_pairs h1 apps r = cost_pairs h apps r"
  by (simp add: cost_pairs_def)

lemma consume_step_heap:
  "rc_of h1 = rc_of h \<Longrightarrow> consume_step h1 apps topo P r = consume_step h apps topo P r"
  by (simp add: consume_step_def cost_pairs_def)

lemma consume_loop_heap:
  "rc_of h1 = rc_of h \<Longrightarrow> consume_loop h1 apps topo P rs = consume_loop h apps topo P rs"
  by (induction rs) (simp_all add: consume_step_heap [of h1 h] split: sum.split)

text \<open>\<open>compose_apps\<close> with the store of the resource loop and the merged path set named.\<close>

lemma compose_apps_unfold:
  "compose_apps (ret :: ('f, 'c, 'o) call list \<Rightarrow> 'o list) rorder h apps topo nc em fm ws =
     (let h1 = fst (merge_pptc h apps);
          opt = [Init topo (merged_pptc h apps)];
          cl = consume_loop h apps topo (merged_pptc h apps) rorder
      in case snd cl of
           Some e \<Rightarrow> \<lparr>final_heap = h1, calls = opt @ fst cl, raised = Some e\<rparr>
         | None \<Rightarrow>
             let opt1 = opt @ fst cl @ cap_calls nc @ named_constraint_calls apps
             in (case compute_weights apps ws of
                   Inl e \<Rightarrow> \<lparr>final_heap = h1, calls = opt1, raised = Some e\<rparr>
                 | Inr w \<Rightarrow>
                     let r = add_objectives ret apps h1 opt1 []
                     in \<lparr>final_heap = fst r,
                         calls = fst (snd r) @ [ComposeObjectives (snd (snd r)) em fm w],
                         raised = None\<rparr>))"
proof -
  obtain h1 p where m: "merge_pptc h apps = (h1, p)" by (cases "merge_pptc h apps")
  have rc: "rc_of h1 = rc_of h" using merge_pptc_frame(2) [OF m] .
  have mp: "merged_pptc h apps = pptc_of h1 p" by (simp add: merged_pptc_def m)
  show ?thesis
    unfolding compose_apps_def m mp consume_loop_heap [OF rc] Let_def case_prod_unfold fst_conv snd_conv
    by (simp split: option.split sum.split)
qed

lemma add_objectives_calls:
  "add_objectives (ret :: ('f, 'c, 'o) call list \<Rightarrow> 'o list) apps h cs objs = (h', cs', objs') \<Longrightarrow>
   \<forall>a \<in> set apps. obj_kwargs a < next_addr h \<Longrightarrow>
     cs' = cs @ map (objective_call h) apps \<and>
     length objs' = length objs + length apps \<and>
     take (length objs) objs' = objs \<and>
     (\<forall>i < length apps. objs' ! (length objs + i) = ret (take (Suc (length cs + i)) cs'))"
proof (induction apps arbitrary: h cs objs)
  case Nil
  then show ?case by simp
next
  case (Cons a apps)
  let ?h3 = "dict_update (fst (dict_new (fst (dict_copy h (obj_kwargs a)))
                [''varname'' \<mapsto> PyStr (name a), ''tcs'' \<mapsto> PyTcs (obj_tc a)])) (next_addr h)
                (Suc (next_addr h))"
  let ?c = "objective_call h a :: ('f, 'c, 'o) call"
  have kw: "AddSingleObjective (obj_kind a) (obj_args a) (dict_of ?h3 (next_addr h)) = ?c"
    by (simp add: objective_call_def dict_copy_def dict_new_def dict_update_def)
  have step: "next_addr ?h3 = Suc (Suc (next_addr h))"
    "\<And>x. x < next_addr h \<Longrightarrow> dict_of ?h3 x = dict_of h x"
    by (simp_all add: dict_copy_def dict_new_def dict_update_def)
  from Cons.prems(1) have
    rec: "add_objectives ret apps ?h3 (cs @ [?c]) (objs @ [ret (cs @ [?c])]) = (h', cs', objs')"
    using kw by (simp add: dict_copy_def dict_new_def Let_def)
  have al: "\<forall>b \<in> set apps. obj_kwargs b < next_addr ?h3"
    using Cons.prems(2) step(1) by auto
  have same: "map (objective_call ?h3) apps = (map (objective_call h) apps :: ('f, 'c, 'o) call list)"
    using Cons.prems(2) step(2) by (auto simp: objective_call_def)
  note ih = Cons.IH [OF rec al]
  from ih have cs': "cs' = cs @ ?c # map (objective_call h) apps"
    using same by simp
  from ih have len: "length objs' = length objs + length (a # apps)" by simp
  from ih have tk: "take (Suc (length objs)) objs' = objs @ [ret (cs @ [?c])]" by simp
  have "take (length objs) objs' = take (length objs) (take (Suc (length objs)) objs')"
    by (simp add: min_def)
  also have "\<dots> = objs" by (simp add: tk)
  finally have tk0: "take (length objs) objs' = objs" .
  have nth: "objs' ! (length objs + i) = ret (take (Suc (length cs + i)) cs')"
    if "i < length (a # apps)" for i
  proof (cases i)
    case 0
    have "objs' ! length objs = (take (Suc (length objs)) objs') ! length objs" by simp
    also have "\<dots> = ret (cs @ [?c])" by (simp add: tk)
    finally show ?thesis using 0 cs' by simp
  next
    case (Suc j)
    with that have "j < length apps" by simp
    with ih have "objs' ! (length (objs @ [ret (cs @ [?c])]) + j)
        = ret (take (Suc (length (cs @ [?c]) + j)) cs')" by blast
    then show ?thesis using Suc by simp
  qed
  show ?case using cs' len tk0 nth by simp
qed

subsection \<open>The loop over the resources\<close>

lemma cost_pairs_eq:
  "cost_pairs h apps r =
     map (\<lambda>a. the (rc_of h (resource_cost a) r))
       (filter (\<lambda>a. r \<in> dom (rc_of h (resource_cost a))) apps)"
  by (simp add: cost_pairs_def List.map_filter_def dom_def comp_def)

lemma cost_pairs_set:
  "p \<in> set (cost_pairs h apps r) \<longleftrightarrow> (\<exists>a \<in> set apps. rc_of h (resource_cost a) r = Some p)"
  by (induction apps) (auto simp: cost_pairs_def split: option.splits)

lemma cost_pairs_Nil: "cost_pairs h apps r = [] \<longleftrightarrow> r \<notin> rset h apps"
proof -
  have "cost_pairs h apps r = [] \<longleftrightarrow> (\<forall>p. p \<notin> set (cost_pairs h apps r))"
    by (cases "cost_pairs h apps r") auto
  also have "\<dots> \<longleftrightarrow> (\<forall>p. \<not> (\<exists>a \<in> set apps. rc_of h (resource_cost a) r = Some p))"
    by (simp only: cost_pairs_set)
  also have "\<dots> \<longleftrightarrow> r \<notin> rset h apps" by (auto simp: rset_def dom_def)
  finally show ?thesis .
qed

lemma card_one_hd: "card (set xs) = 1 \<Longrightarrow> x \<in> set xs \<Longrightarrow> x = hd xs"
proof -
  assume c: "card (set xs) = 1" and x: "x \<in> set xs"
  then obtain y where y: "set xs = {y}" by (auto simp: card_1_singleton_iff)
  with x have "x = y" by simp
  moreover from y have "xs \<noteq> []" by auto
  then have "hd xs \<in> set xs" by simp
  with y have "hd xs = y" by simp
  ultimately show ?thesis by simp
qed

lemma card_not_one: "x \<in> set xs \<Longrightarrow> y \<in> set xs \<Longrightarrow> x \<noteq> y \<Longrightarrow> card (set xs) \<noteq> 1"
  by (auto simp: card_1_singleton_iff)

lemma card_all_same: "xs \<noteq> [] \<Longrightarrow> \<forall>x \<in> set xs. x = m \<Longrightarrow> card (set xs) = 1"
proof -
  assume "xs \<noteq> []" and "\<forall>x \<in> set xs. x = m"
  then have "set xs = {m}" by (cases xs) auto
  then show ?thesis by simp
qed

lemma consume_step_Inr:
  assumes "consume_step h apps topo P r = Inr (c :: ('f, 'c, 'o) call)"
  shows "\<exists>m. (m = NODES \<or> m = LINKS) \<and>
           c = Consume P r (map fst (cost_pairs h apps r))
                 (capacities (if m = NODES then node_caps topo else link_caps topo) r) m \<and>
           cost_pairs h apps r \<noteq> [] \<and> (\<forall>p \<in> set (cost_pairs h apps r). snd p = m)"
proof -
  let ?ps = "cost_pairs h apps r"
  from assms have ne: "?ps \<noteq> []" and c1: "card (set (map snd ?ps)) = 1"
    by (auto simp: consume_step_def Let_def split: if_splits)
  have same: "\<forall>p \<in> set ?ps. snd p = hd (map snd ?ps)"
    using card_one_hd [OF c1] by auto
  from assms ne c1 show ?thesis
    using same by (auto simp: consume_step_def Let_def split: if_splits)
qed

lemma consume_step_Inl:
  assumes "consume_step h apps topo P r = (Inl e :: error + ('f, 'c, 'o) call)"
  shows "(e = ValueError \<and> cost_pairs h apps r = []) \<or>
         (e = AssertionError \<and> card (set (map snd (cost_pairs h apps r))) \<noteq> 1) \<or>
         (\<exists>m. e = InvalidConfigException ''resource owner'' m \<and> m \<noteq> NODES \<and> m \<noteq> LINKS \<and>
              cost_pairs h apps r \<noteq> [] \<and> (\<forall>p \<in> set (cost_pairs h apps r). snd p = m))"
proof -
  let ?ps = "cost_pairs h apps r"
  show ?thesis
  proof (cases "?ps \<noteq> [] \<and> card (set (map snd ?ps)) = 1")
    case True
    then have same: "\<forall>p \<in> set ?ps. snd p = hd (map snd ?ps)"
      using card_one_hd [of "map snd ?ps"] by auto
    from assms True show ?thesis
      using same by (auto simp: consume_step_def Let_def split: if_splits)
  next
    case False
    with assms show ?thesis
      by (auto simp: consume_step_def Let_def split: if_splits)
  qed
qed

lemma consume_step_mismatch:
  assumes "a \<in> set apps" "b \<in> set apps"
    and "rc_of h (resource_cost a) r = Some (f, m)" "rc_of h (resource_cost b) r = Some (g, m')"
    and "m \<noteq> m'"
  shows "consume_step h apps topo P r = (Inl AssertionError :: error + ('f, 'c, 'o) call)"
proof -
  let ?ps = "cost_pairs h apps r"
  have "(f, m) \<in> set ?ps" "(g, m') \<in> set ?ps"
    using assms by (auto simp: cost_pairs_set)
  then have "m \<in> set (map snd ?ps)" "m' \<in> set (map snd ?ps)" and ne: "?ps \<noteq> []"
    by force+
  then have "card (set (map snd ?ps)) \<noteq> 1" using card_not_one assms(5) by metis
  with ne show ?thesis by (simp add: consume_step_def Let_def)
qed

lemma consume_step_unknown:
  assumes "r \<in> rset h apps"
    and "\<forall>a \<in> set apps. \<forall>f m'. rc_of h (resource_cost a) r = Some (f, m') \<longrightarrow> m' = m"
    and "m \<noteq> NODES" "m \<noteq> LINKS"
  shows "consume_step h apps topo P r =
           (Inl (InvalidConfigException ''resource owner'' m) :: error + ('f, 'c, 'o) call)"
proof -
  let ?ps = "cost_pairs h apps r"
  have ne: "?ps \<noteq> []" using assms(1) by (simp add: cost_pairs_Nil)
  have all: "\<forall>x \<in> set (map snd ?ps). x = m"
    using assms(2) by (auto simp: cost_pairs_set)
  have c1: "card (set (map snd ?ps)) = 1" using card_all_same [OF _ all] ne by simp
  have "hd (map snd ?ps) = m" using ne all by (cases ?ps) auto
  with ne c1 assms(3,4) show ?thesis by (simp add: consume_step_def Let_def)
qed

lemma consume_loop_calls:
  "(c :: ('f, 'c, 'o) call) \<in> set (fst (consume_loop h apps topo P rs)) \<Longrightarrow>
     \<exists>r \<in> set rs. consume_step h apps topo P r = Inr c"
  by (induction rs arbitrary: c) (auto split: sum.splits prod.splits)

lemma consume_loop_None:
  "snd (consume_loop h apps topo P rs :: ('f, 'c, 'o) call list \<times> error option) = None \<Longrightarrow>
     list_all2 (\<lambda>r c. consume_step h apps topo P r = Inr c) rs
       (fst (consume_loop h apps topo P rs :: ('f, 'c, 'o) call list \<times> error option))"
  by (induction rs) (auto split: sum.splits prod.splits)

lemma consume_loop_Some:
  "snd (consume_loop h apps topo P rs :: ('f, 'c, 'o) call list \<times> error option) = Some e \<Longrightarrow>
     \<exists>r \<in> set rs. consume_step h apps topo P r = (Inl e :: error + ('f, 'c, 'o) call)"
  by (induction rs) (auto split: sum.splits prod.splits)

lemma consume_loop_fails:
  "r \<in> set rs \<Longrightarrow> consume_step h apps topo P r = (Inl e :: error + ('f, 'c, 'o) call) \<Longrightarrow>
     snd (consume_loop h apps topo P rs :: ('f, 'c, 'o) call list \<times> error option) \<noteq> None"
  by (induction rs) (auto split: sum.splits prod.splits)

subsection \<open>The outcomes of a run\<close>

lemma add_objectives_only:
  "add_objectives (ret :: ('f, 'c, 'o) call list \<Rightarrow> 'o list) apps h cs objs = (h', cs', objs') \<Longrightarrow>
     \<exists>ks. cs' = cs @ ks \<and> (\<forall>k \<in> set ks. is_objective k)"
proof (induction apps arbitrary: h cs objs)
  case Nil
  then show ?case by simp
next
  case (Cons a apps)
  from Cons.prems obtain h3 kw where
    rec: "add_objectives ret apps h3 (cs @ [AddSingleObjective (obj_kind a) (obj_args a) kw])
            (objs @ [ret (cs @ [AddSingleObjective (obj_kind a) (obj_args a) kw])]) = (h', cs', objs')"
    by (auto simp: Let_def split: prod.splits)
  from Cons.IH [OF rec] obtain ks where
    "cs' = (cs @ [AddSingleObjective (obj_kind a) (obj_args a) kw]) @ ks" "\<forall>k \<in> set ks. is_objective k"
    by blast
  then have "cs' = cs @ (AddSingleObjective (obj_kind a) (obj_args a) kw # ks) \<and>
    (\<forall>k \<in> set (AddSingleObjective (obj_kind a) (obj_args a) kw # ks). is_objective k)"
    by simp
  then show ?case by blast
qed

lemma compose_apps_failed_resources:
  fixes ret :: "('f, 'c, 'o) call list \<Rightarrow> 'o list"
  assumes "snd (consume_loop h apps topo (merged_pptc h apps) rorder
             :: ('f, 'c, 'o) call list \<times> error option) = Some e"
  shows "calls (compose_apps ret rorder h apps topo nc em fm ws) =
           Init topo (merged_pptc h apps) # fst (consume_loop h apps topo (merged_pptc h apps) rorder)"
    and "raised (compose_apps ret rorder h apps topo nc em fm ws) = Some e"
    and "final_heap (compose_apps ret rorder h apps topo nc em fm ws) = fst (merge_pptc h apps)"
  using assms by (simp_all add: compose_apps_unfold Let_def)

lemma compose_apps_failed_weights:
  fixes ret :: "('f, 'c, 'o) call list \<Rightarrow> 'o list"
  assumes "snd (consume_loop h apps topo (merged_pptc h apps) rorder
             :: ('f, 'c, 'o) call list \<times> error option) = None"
    and "compute_weights apps ws = Inl e"
  shows "calls (compose_apps ret rorder h apps topo nc em fm ws) =
           Init topo (merged_pptc h apps) # fst (consume_loop h apps topo (merged_pptc h apps) rorder)
             @ cap_calls nc @ named_constraint_calls apps"
    and "raised (compose_apps ret rorder h apps topo nc em fm ws) = Some e"
    and "final_heap (compose_apps ret rorder h apps topo nc em fm ws) = fst (merge_pptc h apps)"
  using assms by (simp_all add: compose_apps_unfold Let_def)

lemma compose_apps_returned:
  fixes ret :: "('f, 'c, 'o) call list \<Rightarrow> 'o list"
  assumes "snd (consume_loop h apps topo (merged_pptc h apps) rorder
             :: ('f, 'c, 'o) call list \<times> error option) = None"
    and "compute_weights apps ws = Inr w"
    and "add_objectives ret apps (fst (merge_pptc h apps))
           (Init topo (merged_pptc h apps) # fst (consume_loop h apps topo (merged_pptc h apps) rorder)
             @ cap_calls nc @ named_constraint_calls apps) [] = (h2, cs2, objs)"
  shows "calls (compose_apps ret rorder h apps topo nc em fm ws) =
           cs2 @ [ComposeObjectives objs em fm w]"
    and "raised (compose_apps ret rorder h apps topo nc em fm ws) = None"
    and "final_heap (compose_apps ret rorder h apps topo nc em fm ws) = h2"
  using assms by (simp_all add: compose_apps_unfold Let_def)

lemma raised_None:
  fixes ret :: "('f, 'c, 'o) call list \<Rightarrow> 'o list"
  assumes "raised (compose_apps ret rorder h apps topo nc em fm ws) = None"
  shows "snd (consume_loop h apps topo (merged_pptc h apps) rorder
             :: ('f, 'c, 'o) call list \<times> error option) = None"
    and "\<exists>w. compute_weights apps ws = Inr w"
  using assms by (auto simp: compose_apps_unfold Let_def split: option.splits sum.splits)

text \<open>The calls of a run, in all three outcomes.\<close>

lemma compose_apps_calls:
  fixes ret :: "('f, 'c, 'o) call list \<Rightarrow> 'o list"
  shows "\<exists>rest. calls (compose_apps ret rorder h apps topo nc em fm ws) =
           Init topo (merged_pptc h apps) # fst (consume_loop h apps topo (merged_pptc h apps) rorder) @ rest
         \<and> (\<forall>c \<in> set rest. \<not> is_consume c)"
proof -
  let ?cl = "consume_loop h apps topo (merged_pptc h apps) rorder :: ('f, 'c, 'o) call list \<times> error option"
  let ?pre = "Init topo (merged_pptc h apps) # fst ?cl"
  let ?mid = "cap_calls nc @ named_constraint_calls apps :: ('f, 'c, 'o) call list"
  have mid: "\<forall>c \<in> set ?mid. \<not> is_consume c"
    by (auto simp: cap_calls_def named_constraint_calls_def split: option.splits)
  show ?thesis
  proof (cases "snd ?cl")
    case (Some e)
    from compose_apps_failed_resources(1) [OF Some] show ?thesis by simp
  next
    case None
    show ?thesis
    proof (cases "compute_weights apps ws")
      case (Inl e)
      from compose_apps_failed_weights(1) [OF None Inl] mid show ?thesis by auto
    next
      case (Inr w)
      obtain h2 cs2 objs where
        ao: "add_objectives ret apps (fst (merge_pptc h apps)) (?pre @ ?mid) [] = (h2, cs2, objs)"
        by (cases "add_objectives ret apps (fst (merge_pptc h apps)) (?pre @ ?mid) []")
      from add_objectives_only [OF ao] obtain ks where
        ks: "cs2 = (?pre @ ?mid) @ ks" "\<forall>k \<in> set ks. is_objective k" by blast
      have "\<forall>k \<in> set ks. \<not> is_consume k"
      proof
        fix k assume "k \<in> set ks"
        with ks(2) have "is_objective k" by blast
        then show "\<not> is_consume k" by (cases k) auto
      qed
      with mid have rest: "\<forall>c \<in> set (?mid @ ks @ [ComposeObjectives objs em fm w]). \<not> is_consume c"
        by auto
      from ao have ao': "add_objectives ret apps (fst (merge_pptc h apps))
           (Init topo (merged_pptc h apps) # fst ?cl @ cap_calls nc @ named_constraint_calls apps) []
           = (h2, cs2, objs)" by simp
      have "calls (compose_apps ret rorder h apps topo nc em fm ws) =
              Init topo (merged_pptc h apps) # fst ?cl @ (?mid @ ks @ [ComposeObjectives objs em fm w])"
        using compose_apps_returned(1) [OF None Inr ao'] ks(1) by simp
      with rest show ?thesis by blast
    qed
  qed
qed

lemma consume_step_consumes:
  "consume_step h apps topo P r' = Inr (c :: ('f, 'c, 'o) call) \<Longrightarrow> consumes r c \<longleftrightarrow> r = r'"
  by (auto dest!: consume_step_Inr simp: consumes_def)

lemma consumes_is_consume: "consumes r c \<Longrightarrow> is_consume c"
  by (cases c) (auto simp: consumes_def)

lemma filter_consumes_calls:
  fixes ret :: "('f, 'c, 'o) call list \<Rightarrow> 'o list"
  shows "filter (consumes r) (calls (compose_apps ret rorder h apps topo nc em fm ws)) =
         filter (consumes r) (fst (consume_loop h apps topo (merged_pptc h apps) rorder))"
proof -
  obtain rest where
    c: "calls (compose_apps ret rorder h apps topo nc em fm ws) =
          Init topo (merged_pptc h apps) # fst (consume_loop h apps topo (merged_pptc h apps) rorder) @ rest"
    and r: "\<forall>c \<in> set rest. \<not> is_consume c"
    using compose_apps_calls [of ret rorder h apps topo nc em fm ws] by blast
  have "filter (consumes r) rest = []"
    using r consumes_is_consume by (auto simp: filter_empty_conv)
  then show ?thesis by (simp add: c consumes_def)
qed

lemma no_consume_after_failure:
  fixes ret :: "('f, 'c, 'o) call list \<Rightarrow> 'o list"
  assumes "consume_step h apps topo (merged_pptc h apps) r = (Inl e :: error + ('f, 'c, 'o) call)"
  shows "filter (consumes r) (calls (compose_apps ret rorder h apps topo nc em fm ws)) = []"
proof -
  have "\<not> consumes r c"
    if "c \<in> set (fst (consume_loop h apps topo (merged_pptc h apps) rorder))" for c :: "('f, 'c, 'o) call"
  proof
    assume cr: "consumes r c"
    from consume_loop_calls [OF that] obtain r' where
      r': "consume_step h apps topo (merged_pptc h apps) r' = Inr c" by blast
    with cr have "r = r'" by (simp add: consume_step_consumes)
    with r' assms show False by simp
  qed
  then show ?thesis by (simp add: filter_consumes_calls filter_empty_conv)
qed

lemma consume_step_ok:
  assumes "r \<in> rset h apps" "declared_ok h apps r"
  shows "\<exists>c :: ('f, 'c, 'o) call. consume_step h apps topo P r = Inr c"
proof -
  let ?ps = "cost_pairs h apps r"
  from assms(2) obtain m where m: "m = NODES \<or> m = LINKS"
    and all: "\<forall>a \<in> set apps. \<forall>f m'. rc_of h (resource_cost a) r = Some (f, m') \<longrightarrow> m' = m"
    by (auto simp: declared_ok_def)
  have ne: "?ps \<noteq> []" using assms(1) by (simp add: cost_pairs_Nil)
  have same: "\<forall>x \<in> set (map snd ?ps). x = m" using all by (auto simp: cost_pairs_set)
  have c1: "card (set (map snd ?ps)) = 1" using card_all_same [OF _ same] ne by simp
  have "hd (map snd ?ps) = m" using ne same by (cases ?ps) auto
  with ne c1 m show ?thesis by (auto simp: consume_step_def Let_def)
qed

lemma raised_in_resources:
  fixes ret :: "('f, 'c, 'o) call list \<Rightarrow> 'o list"
  assumes "r \<in> set rorder"
    and "consume_step h apps topo (merged_pptc h apps) r = (Inl e :: error + ('f, 'c, 'o) call)"
  shows "\<exists>r' \<in> set rorder. consume_step h apps topo (merged_pptc h apps) r' =
            (Inl (the (raised (compose_apps ret rorder h apps topo nc em fm ws))) :: error + ('f, 'c, 'o) call)
          \<and> raised (compose_apps ret rorder h apps topo nc em fm ws) \<noteq> None"
proof -
  let ?cl = "consume_loop h apps topo (merged_pptc h apps) rorder :: ('f, 'c, 'o) call list \<times> error option"
  from consume_loop_fails [OF assms] obtain e' where e': "snd ?cl = Some e'" by auto
  from compose_apps_failed_resources(2) [OF e']
  have "raised (compose_apps ret rorder h apps topo nc em fm ws) = Some e'" .
  with consume_loop_Some [OF e'] show ?thesis by auto
qed

subsection \<open>C1: a resource declared with two ownership domains\<close>

text \<open>
  C1 (as amended). When two applications declare a resource with different ownership
  domains, the composition fails and no \<open>consume\<close> call is submitted for that resource.
  The exception is the AssertionError of line 52, which names neither the resource nor a
  domain; only when the loop over \<open>rset\<close> meets another resource with an unrecognised
  domain first is it the configuration error of that other resource. When every other
  resource is declared consistently, it is the AssertionError.
\<close>

theorem C1_domain_mismatch_fails:
  fixes ret :: "('f, 'c, 'o) call list \<Rightarrow> 'o list"
  assumes "enumerates rorder (rset h apps)"
    and "a \<in> set apps" and "b \<in> set apps"
    and "rc_of h (resource_cost a) r = Some (f, m)"
    and "rc_of h (resource_cost b) r = Some (g, m')"
    and "m \<noteq> m'"
  shows "(let out = compose_apps ret rorder h apps topo nc em fm ws in
            (raised out = Some AssertionError \<or>
             (\<exists>m''. raised out = Some (InvalidConfigException ''resource owner'' m''))) \<and>
            filter (consumes r) (calls out) = [] \<and>
            ((\<forall>r' \<in> rset h apps. r' \<noteq> r \<longrightarrow> declared_ok h apps r') \<longrightarrow>
               raised out = Some AssertionError))"
proof -
  let ?out = "compose_apps ret rorder h apps topo nc em fm ws"
  let ?P = "merged_pptc h apps"
  have step: "consume_step h apps topo ?P r = (Inl AssertionError :: error + ('f, 'c, 'o) call)"
    using consume_step_mismatch [OF assms(2-6)] .
  have rs: "set rorder = rset h apps" using assms(1) by (simp add: enumerates_def)
  have "r \<in> rset h apps" using assms(2,4) by (auto simp: rset_def)
  then have r: "r \<in> set rorder" by (simp add: rs)
  from raised_in_resources [OF r step, of ret nc em fm ws] obtain r' e where
    r': "r' \<in> set rorder" and e: "raised ?out = Some e"
    and s': "consume_step h apps topo ?P r' = (Inl e :: error + ('f, 'c, 'o) call)"
    by auto
  have ne: "cost_pairs h apps r' \<noteq> []" using r' rs by (simp add: cost_pairs_Nil)
  from consume_step_Inl [OF s'] ne
  have kind: "e = AssertionError \<or> (\<exists>m''. e = InvalidConfigException ''resource owner'' m'')"
    by auto
  have only: "e = AssertionError" if "\<forall>x \<in> rset h apps. x \<noteq> r \<longrightarrow> declared_ok h apps x"
  proof (cases "r' = r")
    case True
    with s' step show ?thesis by simp
  next
    case False
    with that r' rs have "declared_ok h apps r'" by simp
    from consume_step_ok [OF _ this, of topo ?P] r' rs s' show ?thesis
      by (metis Inl_Inr_False)
  qed
  have none: "filter (consumes r) (calls ?out) = []"
    using no_consume_after_failure [OF step] .
  show ?thesis using kind only none e by (simp add: Let_def)
qed

theorem C1_domain_mismatch_witness:
  "enumerates [''cpu'', ''bw''] (rset ex_heap [ex_appA, ex_appC]) \<and>
   rc_of ex_heap (resource_cost ex_appA) ''bw'' = Some (100, NODES) \<and>
   rc_of ex_heap (resource_cost ex_appC) ''bw'' = Some (300, LINKS) \<and>
   rset ex_heap [ex_appA, ex_appC] = {''cpu'', ''bw''} \<and>
   declared_ok ex_heap [ex_appA, ex_appC] ''cpu'' \<and>
   raised ex_mismatch = Some AssertionError \<and>
   filter (consumes ''bw'') (calls ex_mismatch) = []"
proof -
  have e: "enumerates [''cpu'', ''bw''] (rset ex_heap [ex_appA, ex_appC])"
    by (auto simp: enumerates_def rset_def ex_defs)
  have a: "rc_of ex_heap (resource_cost ex_appA) ''bw'' = Some (100, NODES)"
    by (simp add: ex_defs)
  have c: "rc_of ex_heap (resource_cost ex_appC) ''bw'' = Some (300, LINKS)"
    by (simp add: ex_defs)
  have ok: "\<forall>r' \<in> rset ex_heap [ex_appA, ex_appC]. r' \<noteq> ''bw'' \<longrightarrow> declared_ok ex_heap [ex_appA, ex_appC] r'"
    by (auto simp: rset_def declared_ok_def ex_defs)
  have rs: "rset ex_heap [ex_appA, ex_appC] = {''cpu'', ''bw''}"
    by (auto simp: rset_def ex_defs)
  have cpu: "declared_ok ex_heap [ex_appA, ex_appC] ''cpu''"
    by (auto simp: declared_ok_def ex_defs)
  from C1_domain_mismatch_fails [OF e _ _ a c, of ex_ret ex_topo None AVG WEIGHTED None] ok
  show ?thesis using e a c rs cpu by (simp add: Let_def ex_mismatch_def)
qed

text \<open>
  C1 as stated fails: \<open>A\<close> declares \<open>bw\<close> for nodes and \<open>C\<close> declares it for links; the
  run ends with an AssertionError, not with a configuration error.
\<close>

theorem C1_not_a_configuration_error:
  "raised ex_mismatch = Some AssertionError \<and> \<not> is_config_error (raised ex_mismatch)"
  by (simp add: ex_mismatch_def run_defs ex_defs)

subsection \<open>C9: a resource with an unrecognised ownership domain\<close>

text \<open>
  C9 (as amended). When all the applications that refer to a resource give it one
  ownership domain that is neither \<open>NODES\<close> nor \<open>LINKS\<close>, the composition fails and no
  \<open>consume\<close> call is submitted for that resource. The exception is the configuration
  error of line 59, which carries the label \<open>resource owner\<close> and the domain value, not
  the name of the resource (or the AssertionError or configuration error of another
  resource that the loop over \<open>rset\<close> meets first). When every other resource is declared
  consistently, it is the configuration error with the domain of this resource.
\<close>

theorem C9_unknown_domain_fails:
  fixes ret :: "('f, 'c, 'o) call list \<Rightarrow> 'o list"
  assumes "enumerates rorder (rset h apps)"
    and "r \<in> rset h apps"
    and "\<forall>a \<in> set apps. \<forall>f m'. rc_of h (resource_cost a) r = Some (f, m') \<longrightarrow> m' = m"
    and "m \<noteq> NODES" and "m \<noteq> LINKS"
  shows "(let out = compose_apps ret rorder h apps topo nc em fm ws in
            (raised out = Some AssertionError \<or>
             (\<exists>m''. raised out = Some (InvalidConfigException ''resource owner'' m''))) \<and>
            filter (consumes r) (calls out) = [] \<and>
            ((\<forall>r' \<in> rset h apps. r' \<noteq> r \<longrightarrow> declared_ok h apps r') \<longrightarrow>
               raised out = Some (InvalidConfigException ''resource owner'' m)))"
proof -
  let ?out = "compose_apps ret rorder h apps topo nc em fm ws"
  let ?P = "merged_pptc h apps"
  have step: "consume_step h apps topo ?P r =
      (Inl (InvalidConfigException ''resource owner'' m) :: error + ('f, 'c, 'o) call)"
    using consume_step_unknown [OF assms(2-5)] .
  have rs: "set rorder = rset h apps" using assms(1) by (simp add: enumerates_def)
  have r: "r \<in> set rorder" using assms(2) by (simp add: rs)
  from raised_in_resources [OF r step, of ret nc em fm ws] obtain r' e where
    r': "r' \<in> set rorder" and e: "raised ?out = Some e"
    and s': "consume_step h apps topo ?P r' = (Inl e :: error + ('f, 'c, 'o) call)"
    by auto
  have ne: "cost_pairs h apps r' \<noteq> []" using r' rs by (simp add: cost_pairs_Nil)
  from consume_step_Inl [OF s'] ne
  have kind: "e = AssertionError \<or> (\<exists>m''. e = InvalidConfigException ''resource owner'' m'')"
    by auto
  have only: "e = InvalidConfigException ''resource owner'' m"
    if "\<forall>x \<in> rset h apps. x \<noteq> r \<longrightarrow> declared_ok h apps x"
  proof (cases "r' = r")
    case True
    with s' step show ?thesis by simp
  next
    case False
    with that r' rs have "declared_ok h apps r'" by simp
    from consume_step_ok [OF _ this, of topo ?P] r' rs s' show ?thesis
      by (metis Inl_Inr_False)
  qed
  have none: "filter (consumes r) (calls ?out) = []"
    using no_consume_after_failure [OF step] .
  show ?thesis using kind only none e by (simp add: Let_def)
qed

theorem C9_unknown_domain_witness:
  "enumerates [''cpu'', ''bw'', ''gpu''] (rset ex_heap [ex_appA, ex_appD]) \<and>
   rc_of ex_heap (resource_cost ex_appD) ''gpu'' = Some (400, OtherMode ''rack'') \<and>
   rc_of ex_heap (resource_cost ex_appA) ''gpu'' = None \<and>
   declared_ok ex_heap [ex_appA, ex_appD] ''cpu'' \<and>
   declared_ok ex_heap [ex_appA, ex_appD] ''bw'' \<and>
   raised ex_unknown_gpu = Some (InvalidConfigException ''resource owner'' (OtherMode ''rack'')) \<and>
   filter (consumes ''gpu'') (calls ex_unknown_gpu) = []"
proof -
  have rs: "rset ex_heap [ex_appA, ex_appD] = {''cpu'', ''bw'', ''gpu''}"
    by (auto simp: rset_def ex_defs)
  have e: "enumerates [''cpu'', ''bw'', ''gpu''] (rset ex_heap [ex_appA, ex_appD])"
    by (auto simp: enumerates_def rs)
  have d: "rc_of ex_heap (resource_cost ex_appD) ''gpu'' = Some (400, OtherMode ''rack'')"
    and a: "rc_of ex_heap (resource_cost ex_appA) ''gpu'' = None"
    by (simp_all add: ex_defs)
  have r: "''gpu'' \<in> rset ex_heap [ex_appA, ex_appD]" by (simp add: rs)
  have same: "\<forall>a \<in> set [ex_appA, ex_appD]. \<forall>f m'.
      rc_of ex_heap (resource_cost a) ''gpu'' = Some (f, m') \<longrightarrow> m' = OtherMode ''rack''"
    using d a by simp
  have cpu: "declared_ok ex_heap [ex_appA, ex_appD] ''cpu''"
    and bw: "declared_ok ex_heap [ex_appA, ex_appD] ''bw''"
    by (auto simp: declared_ok_def ex_defs)
  have ok: "\<forall>r' \<in> rset ex_heap [ex_appA, ex_appD]. r' \<noteq> ''gpu'' \<longrightarrow> declared_ok ex_heap [ex_appA, ex_appD] r'"
    using cpu bw by (simp add: rs)
  from C9_unknown_domain_fails [OF e r same, of ex_ret ex_topo None AVG WEIGHTED None] ok
  show ?thesis using e d a cpu bw by (simp add: Let_def ex_unknown_gpu_def)
qed

text \<open>
  C9 as stated fails: the resource \<open>gpu\<close> in one run and the resource \<open>mem\<close> in another,
  both with the unknown domain \<open>rack\<close>, end in the same exception; it does not tell
  which resource was at fault.
\<close>

theorem C9_error_does_not_name_resource:
  "raised ex_unknown_gpu = Some (InvalidConfigException ''resource owner'' (OtherMode ''rack'')) \<and>
   raised ex_unknown_mem = Some (InvalidConfigException ''resource owner'' (OtherMode ''rack''))"
  by (simp add: ex_unknown_gpu_def ex_unknown_mem_def run_defs ex_defs)

subsection \<open>C3: one consumption constraint for each resource\<close>

lemma consume_filter_ok:
  assumes "list_all2 (\<lambda>r c. consume_step h apps topo P r = Inr c) rs (cs :: ('f, 'c, 'o) call list)"
    and "distinct rs"
  shows "(r \<in> set rs \<longrightarrow> (\<exists>c. consume_step h apps topo P r = Inr c \<and> filter (consumes r) cs = [c])) \<and>
         (r \<notin> set rs \<longrightarrow> filter (consumes r) cs = [])"
  using assms
proof (induction rs cs rule: list_all2_induct)
  case Nil
  then show ?case by simp
next
  case (Cons x xs c cs)
  then show ?case by (auto simp: consume_step_consumes)
qed

lemma raised_None_consumes:
  fixes ret :: "('f, 'c, 'o) call list \<Rightarrow> 'o list"
  assumes "raised (compose_apps ret rorder h apps topo nc em fm ws) = None"
    and "distinct rorder"
  shows "(r \<in> set rorder \<longrightarrow>
            (\<exists>c. consume_step h apps topo (merged_pptc h apps) r = Inr c \<and>
                 filter (consumes r) (calls (compose_apps ret rorder h apps topo nc em fm ws)) = [c])) \<and>
         (r \<notin> set rorder \<longrightarrow>
            filter (consumes r) (calls (compose_apps ret rorder h apps topo nc em fm ws)) = [])"
  using consume_filter_ok [OF consume_loop_None [OF raised_None(1) [OF assms(1)]] assms(2), of r]
  by (simp add: filter_consumes_calls)

text \<open>
  C3. When \<open>compose_apps\<close> returns, the builder has received, for every resource name
  in some application's resource-cost table, exactly one \<open>consume\<close> call: with the merged
  path set, the name, the cost functions of exactly the applications that refer to the
  resource, in input order, the capacity map of the resource, and the ownership domain
  \<open>m\<close> that all these applications give. For any other name it has received none.
\<close>

theorem C3_one_consume_per_resource:
  fixes ret :: "('f, 'c, 'o) call list \<Rightarrow> 'o list"
  assumes "raised (compose_apps ret rorder h apps topo nc em fm ws) = None"
    and "enumerates rorder (rset h apps)"
  shows "(\<forall>r \<in> rset h apps. \<exists>m.
            (m = NODES \<or> m = LINKS) \<and>
            (\<forall>a \<in> set apps. \<forall>f m'. rc_of h (resource_cost a) r = Some (f, m') \<longrightarrow> m' = m) \<and>
            filter (consumes r) (calls (compose_apps ret rorder h apps topo nc em fm ws)) =
              [Consume (merged_pptc h apps) r
                 (map (\<lambda>a. fst (the (rc_of h (resource_cost a) r)))
                    (filter (\<lambda>a. r \<in> dom (rc_of h (resource_cost a))) apps))
                 (capacities (if m = NODES then node_caps topo else link_caps topo) r) m]) \<and>
         (\<forall>r. r \<notin> rset h apps \<longrightarrow>
            filter (consumes r) (calls (compose_apps ret rorder h apps topo nc em fm ws)) = [])"
proof -
  let ?out = "compose_apps ret rorder h apps topo nc em fm ws"
  have d: "distinct rorder" and rs: "set rorder = rset h apps"
    using assms(2) by (simp_all add: enumerates_def)
  have fs: "map fst (cost_pairs h apps r) =
      map (\<lambda>a. fst (the (rc_of h (resource_cost a) r)))
        (filter (\<lambda>a. r \<in> dom (rc_of h (resource_cost a))) apps)" for r
    by (simp add: cost_pairs_eq)
  have "\<exists>m. (m = NODES \<or> m = LINKS) \<and>
            (\<forall>a \<in> set apps. \<forall>f m'. rc_of h (resource_cost a) r = Some (f, m') \<longrightarrow> m' = m) \<and>
            filter (consumes r) (calls ?out) =
              [Consume (merged_pptc h apps) r
                 (map (\<lambda>a. fst (the (rc_of h (resource_cost a) r)))
                    (filter (\<lambda>a. r \<in> dom (rc_of h (resource_cost a))) apps))
                 (capacities (if m = NODES then node_caps topo else link_caps topo) r) m]"
    if "r \<in> rset h apps" for r
  proof -
    from raised_None_consumes [OF assms(1) d, of r] that rs obtain c where
      c: "consume_step h apps topo (merged_pptc h apps) r = Inr c"
      and f: "filter (consumes r) (calls ?out) = [c]" by auto
    from consume_step_Inr [OF c] obtain m where m: "m = NODES \<or> m = LINKS"
      and ceq: "c = Consume (merged_pptc h apps) r (map fst (cost_pairs h apps r))
                 (capacities (if m = NODES then node_caps topo else link_caps topo) r) m"
      and all: "\<forall>p \<in> set (cost_pairs h apps r). snd p = m" by blast
    have "\<forall>a \<in> set apps. \<forall>f m'. rc_of h (resource_cost a) r = Some (f, m') \<longrightarrow> m' = m"
    proof (intro ballI allI impI)
      fix a f m' assume "a \<in> set apps" "rc_of h (resource_cost a) r = Some (f, m')"
      then have "(f, m') \<in> set (cost_pairs h apps r)" by (auto simp: cost_pairs_set)
      with all show "m' = m" by fastforce
    qed
    with m f ceq show ?thesis by (auto simp: fs)
  qed
  moreover have "filter (consumes r) (calls ?out) = []" if "r \<notin> rset h apps" for r
    using raised_None_consumes [OF assms(1) d, of r] that rs by simp
  ultimately show ?thesis by blast
qed

theorem C3_one_consume_witness:
  "raised ex_run = None \<and>
   enumerates [''cpu'', ''bw'', ''lat''] (rset ex_heap [ex_appA, ex_appB]) \<and>
   filter (consumes ''bw'') (calls ex_run) =
     [Consume (merged_pptc ex_heap [ex_appA, ex_appB]) ''bw'' [100, 200]
        (capacities (node_caps ex_topo) ''bw'') NODES] \<and>
   filter (consumes ''gpu'') (calls ex_run) = []"
proof -
  have rs: "rset ex_heap [ex_appA, ex_appB] = {''cpu'', ''bw'', ''lat''}"
    by (auto simp: rset_def ex_defs)
  have e: "enumerates [''cpu'', ''bw'', ''lat''] (rset ex_heap [ex_appA, ex_appB])"
    by (auto simp: enumerates_def rs)
  have ok: "raised (compose_apps ex_ret [''cpu'', ''bw'', ''lat''] ex_heap [ex_appA, ex_appB]
              ex_topo None AVG WEIGHTED None) = None"
    by (simp add: run_defs ex_defs)
  note c3 = C3_one_consume_per_resource [OF ok e]
  from c3 have gpu: "filter (consumes ''gpu'') (calls ex_run) = []"
    by (simp add: rs ex_run_def)
  from c3 have "\<exists>m. (\<forall>a \<in> set [ex_appA, ex_appB]. \<forall>f m'.
        rc_of ex_heap (resource_cost a) ''bw'' = Some (f, m') \<longrightarrow> m' = m) \<and>
      filter (consumes ''bw'') (calls ex_run) =
        [Consume (merged_pptc ex_heap [ex_appA, ex_appB]) ''bw''
           (map (\<lambda>a. fst (the (rc_of ex_heap (resource_cost a) ''bw'')))
              (filter (\<lambda>a. ''bw'' \<in> dom (rc_of ex_heap (resource_cost a))) [ex_appA, ex_appB]))
           (capacities (if m = NODES then node_caps ex_topo else link_caps ex_topo) ''bw'') m]"
    unfolding rs ex_run_def by blast
  then obtain m where
    m: "\<forall>a \<in> set [ex_appA, ex_appB]. \<forall>f m'.
        rc_of ex_heap (resource_cost a) ''bw'' = Some (f, m') \<longrightarrow> m' = m"
    and f: "filter (consumes ''bw'') (calls ex_run) =
        [Consume (merged_pptc ex_heap [ex_appA, ex_appB]) ''bw''
           (map (\<lambda>a. fst (the (rc_of ex_heap (resource_cost a) ''bw'')))
              (filter (\<lambda>a. ''bw'' \<in> dom (rc_of ex_heap (resource_cost a))) [ex_appA, ex_appB]))
           (capacities (if m = NODES then node_caps ex_topo else link_caps ex_topo) ''bw'') m]"
    by blast
  have "rc_of ex_heap (resource_cost ex_appA) ''bw'' = Some (100, NODES)" by (simp add: ex_defs)
  with m have "m = NODES" by simp
  moreover have "map (\<lambda>a. fst (the (rc_of ex_heap (resource_cost a) ''bw'')))
      (filter (\<lambda>a. ''bw'' \<in> dom (rc_of ex_heap (resource_cost a))) [ex_appA, ex_appB]) = [100, 200]"
    by (simp add: ex_heap_def ex_appA_def ex_appB_def)
  ultimately have "filter (consumes ''bw'') (calls ex_run) =
     [Consume (merged_pptc ex_heap [ex_appA, ex_appB]) ''bw'' [100, 200]
        (capacities (node_caps ex_topo) ''bw'') NODES]"
    using f by simp
  with gpu e ok show ?thesis by (simp add: ex_run_def)
qed

subsection \<open>C7: the capacity map\<close>

lemma node_caps_eq:
  "node_caps topo e =
     (case e of
        Node n \<Rightarrow> if n \<in> set (nodes topo) then Some (get_resources topo (Node n)) else None
      | Link u v \<Rightarrow> None)"
proof -
  have "map_of (map (\<lambda>n. (Node n, g (Node n))) ns) e =
     (case e of Node n \<Rightarrow> if n \<in> set ns then Some (g (Node n)) else None | Link u v \<Rightarrow> None)"
    for ns and g :: "elem \<Rightarrow> (resource \<rightharpoonup> real)"
    by (induction ns) (auto split: elem.splits)
  then show ?thesis by (simp add: node_caps_def)
qed

lemma link_caps_eq:
  "link_caps topo e =
     (case e of
        Node n \<Rightarrow> None
      | Link u v \<Rightarrow> if (u, v) \<in> set (links topo) then Some (get_resources topo (Link u v)) else None)"
proof -
  have "map_of (map (\<lambda>(u, v). (Link u v, g (Link u v))) ls) e =
     (case e of Node n \<Rightarrow> None
      | Link u v \<Rightarrow> if (u, v) \<in> set ls then Some (g (Link u v)) else None)"
    for ls and g :: "elem \<Rightarrow> (resource \<rightharpoonup> real)"
    by (induction ls) (auto split: elem.splits)
  then show ?thesis by (simp add: link_caps_def)
qed

lemma calls_Consume:
  fixes ret :: "('f, 'c, 'o) call list \<Rightarrow> 'o list"
  assumes "Consume P r fs cm m \<in> set (calls (compose_apps ret rorder h apps topo nc em fm ws))"
  shows "(m = NODES \<or> m = LINKS) \<and>
         cm = capacities (if m = NODES then node_caps topo else link_caps topo) r"
proof -
  let ?c = "Consume P r fs cm m :: ('f, 'c, 'o) call"
  obtain rest where
    c: "calls (compose_apps ret rorder h apps topo nc em fm ws) =
          Init topo (merged_pptc h apps) # fst (consume_loop h apps topo (merged_pptc h apps) rorder) @ rest"
    and r: "\<forall>c \<in> set rest. \<not> is_consume c"
    using compose_apps_calls [of ret rorder h apps topo nc em fm ws] by blast
  have "?c \<notin> set rest" using r by force
  with assms c have "?c \<in> set (fst (consume_loop h apps topo (merged_pptc h apps) rorder))"
    by auto
  from consume_loop_calls [OF this] obtain r' where
    "consume_step h apps topo (merged_pptc h apps) r' = Inr ?c" by blast
  from consume_step_Inr [OF this] show ?thesis by auto
qed

text \<open>
  C7. Every \<open>consume\<close> call the builder receives is for \<open>NODES\<close> or for \<open>LINKS\<close>. For
  \<open>NODES\<close>, its capacity map holds exactly the nodes of the topology whose resources
  include the resource name, each with the capacity it advertises; for \<open>LINKS\<close>, exactly
  such links.
\<close>

theorem C7_capacity_map_exact:
  fixes ret :: "('f, 'c, 'o) call list \<Rightarrow> 'o list"
  assumes "Consume P r fs cm m \<in> set (calls (compose_apps ret rorder h apps topo nc em fm ws))"
  shows "(m = NODES \<or> m = LINKS) \<and>
         (m = NODES \<longrightarrow>
            (\<forall>e v. cm e = Some v \<longleftrightarrow>
               (\<exists>n. e = Node n \<and> n \<in> set (nodes topo) \<and> get_resources topo (Node n) r = Some v))) \<and>
         (m = LINKS \<longrightarrow>
            (\<forall>e v. cm e = Some v \<longleftrightarrow>
               (\<exists>u w. e = Link u w \<and> (u, w) \<in> set (links topo) \<and>
                      get_resources topo (Link u w) r = Some v)))"
proof -
  from calls_Consume [OF assms] have m: "m = NODES \<or> m = LINKS"
    and cm: "cm = capacities (if m = NODES then node_caps topo else link_caps topo) r"
    by simp_all
  have n: "capacities (node_caps topo) r e = Some v \<longleftrightarrow>
      (\<exists>n. e = Node n \<and> n \<in> set (nodes topo) \<and> get_resources topo (Node n) r = Some v)" for e v
    by (cases e) (simp_all add: capacities_def node_caps_eq)
  have l: "capacities (link_caps topo) r e = Some v \<longleftrightarrow>
      (\<exists>u w. e = Link u w \<and> (u, w) \<in> set (links topo) \<and> get_resources topo (Link u w) r = Some v)"
    for e v
    by (cases e) (simp_all add: capacities_def link_caps_eq)
  show ?thesis using m cm n l by auto
qed

theorem C7_capacity_map_witness:
  "Consume (merged_pptc ex_heap [ex_appA, ex_appB]) ''bw'' [100, 200]
      (capacities (node_caps ex_topo) ''bw'') NODES \<in> set (calls ex_run) \<and>
   capacities (node_caps ex_topo) ''bw'' (Node 1) = Some 5 \<and>
   capacities (node_caps ex_topo) ''bw'' (Node 2) = None \<and>
   capacities (node_caps ex_topo) ''bw'' (Link 1 2) = None"
proof -
  let ?cm = "capacities (node_caps ex_topo) ''bw''"
  have mem: "Consume (merged_pptc ex_heap [ex_appA, ex_appB]) ''bw'' [100, 200] ?cm NODES
      \<in> set (calls (compose_apps ex_ret [''cpu'', ''bw'', ''lat''] ex_heap [ex_appA, ex_appB]
                ex_topo None AVG WEIGHTED None))"
    by (simp add: run_defs merged_pptc_def ex_heap_def ex_appA_def ex_appB_def)
  from C7_capacity_map_exact [OF mem]
  have iff: "?cm e = Some v \<longleftrightarrow>
      (\<exists>n. e = Node n \<and> n \<in> set (nodes ex_topo) \<and> get_resources ex_topo (Node n) ''bw'' = Some v)"
    for e v by simp
  have n1: "?cm (Node 1) = Some 5" unfolding iff by (simp add: ex_topo_def)
  have "?cm (Node 2) \<noteq> Some v" for v unfolding iff by (simp add: ex_topo_def)
  then have n2: "?cm (Node 2) = None" by (cases "?cm (Node 2)") auto
  have "?cm (Link 1 2) \<noteq> Some v" for v unfolding iff by simp
  then have l: "?cm (Link 1 2) = None" by (cases "?cm (Link 1 2)") auto
  from mem n1 n2 l show ?thesis by (simp add: ex_run_def)
qed

subsection \<open>C6: capping\<close>

lemma consume_loop_is_consume:
  "(c :: ('f, 'c, 'o) call) \<in> set (fst (consume_loop h apps topo P rs)) \<Longrightarrow> is_consume c"
  by (auto dest!: consume_loop_calls consume_step_Inr)

lemma filter_is_cap_consume_loop:
  "filter is_cap (fst (consume_loop h apps topo P rs) :: ('f, 'c, 'o) call list) = []"
proof -
  have "\<not> is_cap c" if "c \<in> set (fst (consume_loop h apps topo P rs))" for c :: "('f, 'c, 'o) call"
    using consume_loop_is_consume [OF that] by (cases c) auto
  then show ?thesis by (simp add: filter_empty_conv)
qed

lemma filter_is_cap_cap_calls: "filter is_cap (cap_calls nc) = cap_calls nc"
  by (auto simp: cap_calls_def filter_id_conv split: option.splits)

lemma filter_is_cap_named: "filter is_cap (named_constraint_calls apps) = []"
  by (auto simp: named_constraint_calls_def filter_empty_conv)

lemma filter_is_cap_objectives: "\<forall>k \<in> set ks. is_objective k \<Longrightarrow> filter is_cap ks = []"
proof -
  assume a: "\<forall>k \<in> set ks. is_objective k"
  have "\<not> is_cap k" if "k \<in> set ks" for k
    using a that by (cases k) auto
  then show ?thesis by (simp add: filter_empty_conv)
qed

lemma filter_is_cap_calls:
  fixes ret :: "('f, 'c, 'o) call list \<Rightarrow> 'o list"
  shows "filter is_cap (calls (compose_apps ret rorder h apps topo nc em fm ws)) =
     (if snd (consume_loop h apps topo (merged_pptc h apps) rorder :: ('f, 'c, 'o) call list \<times> error option)
         = None
      then cap_calls nc else [])"
proof -
  let ?cl = "consume_loop h apps topo (merged_pptc h apps) rorder :: ('f, 'c, 'o) call list \<times> error option"
  let ?pre = "Init topo (merged_pptc h apps) # fst ?cl @ cap_calls nc @ named_constraint_calls apps"
  show ?thesis
  proof (cases "snd ?cl")
    case (Some e)
    from compose_apps_failed_resources(1) [OF Some] Some show ?thesis
      by (simp add: filter_is_cap_consume_loop)
  next
    case None
    have pre: "filter is_cap ?pre = cap_calls nc"
      by (simp add: filter_is_cap_consume_loop filter_is_cap_cap_calls filter_is_cap_named)
    show ?thesis
    proof (cases "compute_weights apps ws")
      case (Inl e)
      from compose_apps_failed_weights(1) [OF None Inl] pre None show ?thesis by simp
    next
      case (Inr w)
      obtain h2 cs2 objs where
        ao: "add_objectives ret apps (fst (merge_pptc h apps)) ?pre [] = (h2, cs2, objs)"
        by (cases "add_objectives ret apps (fst (merge_pptc h apps)) ?pre []")
      from add_objectives_only [OF ao] obtain ks where
        ks: "cs2 = ?pre @ ks" "\<forall>k \<in> set ks. is_objective k" by blast
      have "filter is_cap cs2 = cap_calls nc"
        unfolding ks(1) filter_append pre filter_is_cap_objectives [OF ks(2)] by simp
      with compose_apps_returned(1) [OF None Inr ao] None show ?thesis by simp
    qed
  qed
qed

lemma caps_resource_is_cap: "caps_resource r c \<Longrightarrow> is_cap c"
  by (cases c) (auto simp: caps_resource_def)

lemma caps_resource_Cap: "caps_resource r (Cap r' v t) \<longleftrightarrow> r' = r"
  by (simp add: caps_resource_def)

lemma filter_caps_resource_absent:
  "r \<notin> set rs \<Longrightarrow> filter (caps_resource r) (map (\<lambda>x. Cap x (f x) None) rs) = []"
  by (induction rs) (auto simp: caps_resource_Cap)

lemma filter_caps_resource_map:
  "distinct rs \<Longrightarrow> r \<in> set rs \<Longrightarrow>
     filter (caps_resource r) (map (\<lambda>x. Cap x (f x) None) rs) = [Cap r (f r) None]"
  by (induction rs) (auto simp: caps_resource_Cap filter_caps_resource_absent)

lemma filter_through:
  "(\<And>x. P x \<Longrightarrow> Q x) \<Longrightarrow> filter P xs = filter P (filter Q xs)"
  by (induction xs) auto

text \<open>
  C6. Without a network configuration, or with one whose \<open>get_caps()\<close> is \<open>None\<close>, the
  builder receives no \<open>cap\<close> call. With a caps object, when \<open>compose_apps\<close> returns, the
  \<open>cap\<close> calls are those of the names \<open>resources()\<close> lists, in that order, each with
  \<open>caps(r)\<close> and \<open>tcs = None\<close>; when the names are distinct, exactly one for each.
\<close>

theorem C6_capping_requests:
  fixes ret :: "('f, 'c, 'o) call list \<Rightarrow> 'o list"
  shows "((nc = None \<or> (\<exists>cfg. nc = Some cfg \<and> get_caps cfg = None)) \<longrightarrow>
            filter is_cap (calls (compose_apps ret rorder h apps topo nc em fm ws)) = []) \<and>
         (\<forall>cfg cps.
            raised (compose_apps ret rorder h apps topo nc em fm ws) = None \<and>
            nc = Some cfg \<and> get_caps cfg = Some cps \<longrightarrow>
              filter is_cap (calls (compose_apps ret rorder h apps topo nc em fm ws)) =
                map (\<lambda>r. Cap r (caps cps r) None) (resources cps) \<and>
              (distinct (resources cps) \<longrightarrow>
                 (\<forall>r \<in> set (resources cps).
                    filter (caps_resource r) (calls (compose_apps ret rorder h apps topo nc em fm ws)) =
                      [Cap r (caps cps r) None])))"
proof -
  let ?out = "compose_apps ret rorder h apps topo nc em fm ws"
  have a: "filter is_cap (calls ?out) = []"
    if "nc = None \<or> (\<exists>cfg. nc = Some cfg \<and> get_caps cfg = None)"
    using that by (auto simp: filter_is_cap_calls cap_calls_def)
  have b: "filter is_cap (calls ?out) = map (\<lambda>r. Cap r (caps cps r) None) (resources cps)"
    if "raised ?out = None" "nc = Some cfg" "get_caps cfg = Some cps" for cfg cps
    using raised_None(1) [OF that(1)] that(2,3) by (simp add: filter_is_cap_calls cap_calls_def)
  have c: "filter (caps_resource r) (calls ?out) = [Cap r (caps cps r) None]"
    if "raised ?out = None" "nc = Some cfg" "get_caps cfg = Some cps"
      "distinct (resources cps)" "r \<in> set (resources cps)" for cfg cps r
  proof -
    have "filter (caps_resource r) (calls ?out) = filter (caps_resource r) (filter is_cap (calls ?out))"
      by (rule filter_through) (rule caps_resource_is_cap)
    also have "\<dots> = filter (caps_resource r) (map (\<lambda>r. Cap r (caps cps r) None) (resources cps))"
      by (simp only: b [OF that(1-3)])
    also have "\<dots> = [Cap r (caps cps r) None]"
      using filter_caps_resource_map [OF that(4,5)] .
    finally show ?thesis .
  qed
  show ?thesis using a b c by blast
qed

theorem C6_capping_witness:
  "filter is_cap (calls ex_run) = [] \<and>
   raised ex_capped = None \<and>
   get_caps ex_netconf = Some \<lparr>resources = [''bw'', ''cpu''], caps = (\<lambda>r. if r = ''bw'' then 3 else 4)\<rparr> \<and>
   filter is_cap (calls ex_capped) = [Cap ''bw'' 3 None, Cap ''cpu'' 4 None] \<and>
   filter (caps_resource ''cpu'') (calls ex_capped) = [Cap ''cpu'' 4 None]"
proof -
  let ?cps = "\<lparr>resources = [''bw'', ''cpu''], caps = (\<lambda>r. if r = ''bw'' then 3 else 4 :: nat)\<rparr>"
  have g: "get_caps ex_netconf = Some ?cps" by (simp add: ex_netconf_def)
  have ok: "raised (compose_apps ex_ret [''cpu'', ''bw'', ''lat''] ex_heap [ex_appA, ex_appB] ex_topo
              (Some ex_netconf) AVG WEIGHTED None) = None"
    by (simp add: run_defs ex_defs)
  from C6_capping_requests [of None ex_ret "[''cpu'', ''bw'', ''lat'']" ex_heap "[ex_appA, ex_appB]"
      ex_topo AVG WEIGHTED None]
  have none: "filter is_cap (calls ex_run) = []" by (simp add: ex_run_def)
  from C6_capping_requests [of "Some ex_netconf" ex_ret "[''cpu'', ''bw'', ''lat'']" ex_heap
      "[ex_appA, ex_appB]" ex_topo AVG WEIGHTED None] ok g
  have "filter is_cap (calls ex_capped) = map (\<lambda>r. Cap r (caps ?cps r) None) (resources ?cps) \<and>
      (distinct (resources ?cps) \<longrightarrow>
         (\<forall>r \<in> set (resources ?cps). filter (caps_resource r) (calls ex_capped) = [Cap r (caps ?cps r) None]))"
    unfolding ex_capped_def by blast
  then have "filter is_cap (calls ex_capped) = [Cap ''bw'' 3 None, Cap ''cpu'' 4 None]"
    and "filter (caps_resource ''cpu'') (calls ex_capped) = [Cap ''cpu'' 4 None]"
    by simp_all
  with none ok g show ?thesis by (simp add: ex_capped_def)
qed

subsection \<open>C4: derived weights\<close>





subsection \<open>C5: explicit weights\<close>

lemma check_weights_vector:
  "2 \<le> length ws \<Longrightarrow> check_weights (NdArray ws) = Some ValueError"
proof -
  assume "2 \<le> length ws"
  then obtain a b cs where ws: "ws = a # b # cs"
    by (cases ws; cases "tl ws") auto
  show ?thesis by (simp add: ws)
qed

text \<open>
  C5 fails on the code. The vector \<open>[0.5, 0.5]\<close>, one weight for each of the two
  applications and each within \<open>[0, 1]\<close>, is not used as it is: the assert of line 79
  compares the whole array, and numpy refuses the truth value of the result.
\<close>

theorem C5_valid_weight_vector_rejected:
  "raised ex_weighted = Some ValueError"
  by (simp add: ex_weighted_def run_defs ex_defs)

subsection \<open>C8: the objectives\<close>

text \<open>The calls of a run that returns, with the rows of the objective matrix.\<close>

lemma returned_calls:
  fixes ret :: "('f, 'c, 'o) call list \<Rightarrow> 'o list"
  assumes "raised (compose_apps ret rorder h apps topo nc em fm ws) = None"
    and "allocated h apps"
  shows "\<exists>objs w.
           calls (compose_apps ret rorder h apps topo nc em fm ws) =
             (Init topo (merged_pptc h apps) # fst (consume_loop h apps topo (merged_pptc h apps) rorder)
                @ cap_calls nc @ named_constraint_calls apps)
             @ map (objective_call h) apps @ [ComposeObjectives objs em fm w] \<and>
           compute_weights apps ws = Inr w \<and>
           length objs = length apps \<and>
           (\<forall>i < length apps. objs ! i =
              ret (take (Suc (length (Init topo (merged_pptc h apps) #
                      fst (consume_loop h apps topo (merged_pptc h apps) rorder
                            :: ('f, 'c, 'o) call list \<times> error option)
                      @ cap_calls nc @ named_constraint_calls apps) + i))
                   (calls (compose_apps ret rorder h apps topo nc em fm ws))))"
proof -
  let ?out = "compose_apps ret rorder h apps topo nc em fm ws"
  let ?cl = "consume_loop h apps topo (merged_pptc h apps) rorder :: ('f, 'c, 'o) call list \<times> error option"
  let ?pre = "Init topo (merged_pptc h apps) # fst ?cl @ cap_calls nc @ named_constraint_calls apps"
  let ?h1 = "fst (merge_pptc h apps)"
  obtain p where m: "merge_pptc h apps = (?h1, p)" by (cases "merge_pptc h apps") auto
  have d: "dict_of ?h1 = dict_of h" and n: "next_addr ?h1 = Suc (next_addr h)"
    using merge_pptc_frame(3,4) [OF m] by simp_all
  from raised_None [OF assms(1)] obtain w where cl: "snd ?cl = None"
    and w: "compute_weights apps ws = Inr w" by blast
  obtain h2 cs2 objs where
    ao: "add_objectives ret apps ?h1 ?pre [] = (h2, cs2, objs)"
    by (cases "add_objectives ret apps ?h1 ?pre []")
  have al: "\<forall>a \<in> set apps. obj_kwargs a < next_addr ?h1"
    using assms(2) n by (auto simp: allocated_def)
  have same: "map (objective_call ?h1) apps = (map (objective_call h) apps :: ('f, 'c, 'o) call list)"
    by (simp add: objective_call_def d)
  from add_objectives_calls [OF ao al]
  have cs2: "cs2 = ?pre @ map (objective_call h) apps"
    and len: "length objs = length apps"
    and rows: "\<forall>i < length apps. objs ! i = ret (take (Suc (length ?pre + i)) cs2)"
    using same by simp_all
  have c: "calls ?out = cs2 @ [ComposeObjectives objs em fm w]"
    using compose_apps_returned(1) [OF cl w ao] .
  have "objs ! i = ret (take (Suc (length ?pre + i)) (calls ?out))" if "i < length apps" for i
  proof -
    have "Suc (length ?pre + i) \<le> length cs2" using that by (simp add: cs2)
    then have "take (Suc (length ?pre + i)) (calls ?out) = take (Suc (length ?pre + i)) cs2"
      unfolding c by simp
    with rows that show ?thesis by simp
  qed
  with c cs2 w len show ?thesis by auto
qed

lemma pre_calls_kinds:
  "\<forall>c \<in> set (Init topo P # fst (consume_loop h apps topo P rorder)
              @ cap_calls nc @ named_constraint_calls apps :: ('f, 'c, 'o) call list).
     \<not> is_objective c \<and> \<not> is_compose c"
proof
  fix c :: "('f, 'c, 'o) call"
  assume "c \<in> set (Init topo P # fst (consume_loop h apps topo P rorder)
              @ cap_calls nc @ named_constraint_calls apps)"
  then consider "c = Init topo P" | "c \<in> set (fst (consume_loop h apps topo P rorder))"
    | "c \<in> set (cap_calls nc)" | "c \<in> set (named_constraint_calls apps)" by auto
  then show "\<not> is_objective c \<and> \<not> is_compose c"
  proof cases
    case 1
    then show ?thesis by simp
  next
    case 2
    from consume_loop_is_consume [OF this] show ?thesis by (cases c) auto
  next
    case 3
    then show ?thesis by (auto simp: cap_calls_def split: option.splits)
  next
    case 4
    then show ?thesis by (auto simp: named_constraint_calls_def)
  qed
qed

text \<open>
  C8. When \<open>compose_apps\<close> returns (the store being well formed), the calls of the
  builder end with one \<open>add_single_objective\<close> call for each application, in input
  order, with the application's objective kind, its positional arguments and its keyword
  options with \<open>varname\<close> set to its name and \<open>tcs\<close> to its objective traffic classes,
  followed by one \<open>compose_objectives\<close> call; no earlier call is of either kind. The
  matrix has one row for each application, in input order: what the builder returned to
  that application's call. It comes with the epoch mode, the fairness mode and the weight
  vector (the explicit one, or the derived one).
\<close>

theorem C8_objectives_composed:
  fixes ret :: "('f, 'c, 'o) call list \<Rightarrow> 'o list"
  assumes "raised (compose_apps ret rorder h apps topo nc em fm ws) = None"
    and "allocated h apps"
  shows "\<exists>pre objs.
           calls (compose_apps ret rorder h apps topo nc em fm ws) =
             pre @ map (objective_call h) apps @
               [ComposeObjectives objs em fm (case ws of None \<Rightarrow> derived_weights apps | Some w \<Rightarrow> w)] \<and>
           (\<forall>c \<in> set pre. \<not> is_objective c \<and> \<not> is_compose c) \<and>
           length objs = length apps \<and>
           (\<forall>i < length apps. objs ! i =
              ret (take (Suc (length pre + i)) (calls (compose_apps ret rorder h apps topo nc em fm ws))))"
proof -
  let ?pre = "Init topo (merged_pptc h apps) # fst (consume_loop h apps topo (merged_pptc h apps) rorder)
                @ cap_calls nc @ named_constraint_calls apps :: ('f, 'c, 'o) call list"
  from returned_calls [OF assms] obtain objs w where
    c: "calls (compose_apps ret rorder h apps topo nc em fm ws) =
          ?pre @ map (objective_call h) apps @ [ComposeObjectives objs em fm w]"
    and w: "compute_weights apps ws = Inr w"
    and len: "length objs = length apps"
    and rows: "\<forall>i < length apps. objs ! i =
        ret (take (Suc (length ?pre + i)) (calls (compose_apps ret rorder h apps topo nc em fm ws)))"
    by blast
  have "w = (case ws of None \<Rightarrow> derived_weights apps | Some v \<Rightarrow> v)"
    using w by (auto simp: compute_weights_def split: option.splits)
  with c len rows pre_calls_kinds [of topo "merged_pptc h apps" h apps rorder nc]
  show ?thesis by blast
qed

theorem C8_objectives_witness:
  "raised ex_run = None \<and> allocated ex_heap [ex_appA, ex_appB] \<and>
   filter is_objective (calls ex_run) =
     [AddSingleObjective (PyStr ''minlatency'') []
        [''k'' \<mapsto> PyNum 1, ''varname'' \<mapsto> PyStr ''A'', ''tcs'' \<mapsto> PyTcs [1]],
      AddSingleObjective (PyStr ''maxflow'') [PyNum 2]
        [''varname'' \<mapsto> PyStr ''B'', ''tcs'' \<mapsto> PyTcs [1, 2]]] \<and>
   last (calls ex_run) = ComposeObjectives [[7], [8]] AVG WEIGHTED (NdArray [Fin (3 / 4), Fin (1 / 4)])"
proof -
  let ?apps = "[ex_appA, ex_appB]"
  have ok: "raised (compose_apps ex_ret [''cpu'', ''bw'', ''lat''] ex_heap ?apps ex_topo
              None AVG WEIGHTED None) = None"
    by (simp add: run_defs ex_defs)
  have al: "allocated ex_heap ?apps" by (simp add: allocated_def ex_defs)
  from C8_objectives_composed [OF ok al] obtain pre objs where
    c: "calls ex_run = pre @ map (objective_call ex_heap) ?apps @
          [ComposeObjectives objs AVG WEIGHTED (derived_weights ?apps)]"
    and pre: "\<forall>c \<in> set pre. \<not> is_objective c \<and> \<not> is_compose c"
    and len: "length objs = length ?apps"
    and rows: "\<forall>i < length ?apps. objs ! i = ex_ret (take (Suc (length pre + i)) (calls ex_run))"
    unfolding ex_run_def by auto
  have fp: "filter is_objective pre = []" using pre by (simp add: filter_empty_conv)
  have a: "objective_call ex_heap ex_appA = (AddSingleObjective (PyStr ''minlatency'') []
        [''k'' \<mapsto> PyNum 1, ''varname'' \<mapsto> PyStr ''A'', ''tcs'' \<mapsto> PyTcs [1]] :: (nat, nat, nat) call)"
    by (simp add: objective_call_def ex_defs)
  have b: "objective_call ex_heap ex_appB = (AddSingleObjective (PyStr ''maxflow'') [PyNum 2]
        [''varname'' \<mapsto> PyStr ''B'', ''tcs'' \<mapsto> PyTcs [1, 2]] :: (nat, nat, nat) call)"
    by (simp add: objective_call_def ex_defs)
  have f: "filter is_objective (calls ex_run) =
     [AddSingleObjective (PyStr ''minlatency'') []
        [''k'' \<mapsto> PyNum 1, ''varname'' \<mapsto> PyStr ''A'', ''tcs'' \<mapsto> PyTcs [1]],
      AddSingleObjective (PyStr ''maxflow'') [PyNum 2]
        [''varname'' \<mapsto> PyStr ''B'', ''tcs'' \<mapsto> PyTcs [1, 2]]]"
    unfolding c by (simp add: fp a b)
  have n: "length (calls ex_run) = 9"
    by (simp add: ex_run_def run_defs ex_defs cap_calls_def named_constraint_calls_def)
  then have lp: "length pre = 6" unfolding c by simp
  have r: "ex_ret (take k (calls ex_run)) = [min k 9]" for k
    by (simp add: ex_ret_def n min.commute)
  from rows have "objs ! 0 = [7]" "objs ! 1 = [8]" by (simp_all add: r lp)
  with len have objs: "objs = [[7], [8]]"
    by (cases objs; cases "tl objs") auto
  have w: "derived_weights ?apps = NdArray [Fin (3 / 4), Fin (1 / 4)]"
    by (simp add: derived_weights_def np_divide_def ex_defs)
  have "last (calls ex_run) = ComposeObjectives [[7], [8]] AVG WEIGHTED (NdArray [Fin (3 / 4), Fin (1 / 4)])"
    unfolding c by (simp add: objs w)
  with ok al f show ?thesis by (simp add: ex_run_def)
qed

subsection \<open>C2: the merged path set\<close>

lemma merge_loop_content:
  "\<forall>a \<in> set apps. pptc a \<noteq> p \<Longrightarrow>
     pptc_of (merge_loop h p apps) p =
       foldl pptc_update (pptc_of h p) (map (\<lambda>a. pptc_of h (pptc a)) apps)"
proof (induction apps arbitrary: h)
  case Nil
  then show ?case by simp
next
  case (Cons a apps)
  let ?h' = "pptc_update_at h p (pptc a)"
  have p: "pptc_of ?h' p = pptc_update (pptc_of h p) (pptc_of h (pptc a))"
    by (simp add: pptc_update_at_def)
  have others: "map (\<lambda>b. pptc_of ?h' (pptc b)) apps = map (\<lambda>b. pptc_of h (pptc b)) apps"
    using Cons.prems by (simp add: pptc_update_at_def)
  from Cons.prems have "\<forall>b \<in> set apps. pptc b \<noteq> p" by simp
  from Cons.IH [OF this, of ?h'] show ?case by (simp add: p others)
qed

lemma merged_pptc_foldl:
  assumes "allocated h apps"
  shows "merged_pptc h apps = foldl pptc_update Map.empty (map (\<lambda>a. pptc_of h (pptc a)) apps)"
proof -
  let ?p = "next_addr h"
  let ?h0 = "fst (pptc_new h)"
  have ne: "\<forall>a \<in> set apps. pptc a \<noteq> ?p" using assms by (auto simp: allocated_def)
  have h0: "pptc_of ?h0 ?p = Map.empty" by (simp add: pptc_new_def)
  have same: "map (\<lambda>a. pptc_of ?h0 (pptc a)) apps = map (\<lambda>a. pptc_of h (pptc a)) apps"
    using ne by (simp add: pptc_new_def)
  have "merged_pptc h apps = pptc_of (merge_loop ?h0 ?p apps) ?p"
    by (simp add: merged_pptc_def merge_pptc_def pptc_new_def)
  also have "\<dots> = foldl pptc_update (pptc_of ?h0 ?p) (map (\<lambda>a. pptc_of ?h0 (pptc a)) apps)"
    using merge_loop_content [OF ne] .
  finally show ?thesis by (simp only: h0 same)
qed

lemma foldl_pptc_update:
  "foldl pptc_update m ps t =
     (if \<forall>p \<in> set ps. p t = None then m t
      else Some ((case m t of None \<Rightarrow> {} | Some s \<Rightarrow> s) \<union>
                 (\<Union>p \<in> set ps. case p t of None \<Rightarrow> {} | Some s \<Rightarrow> s)))"
proof (induction ps arbitrary: m)
  case Nil
  then show ?case by simp
next
  case (Cons q ps)
  show ?case
    unfolding foldl_Cons Cons.IH
    by (auto simp: pptc_update_def split: option.splits)
qed

lemma merged_pptc_union:
  assumes "allocated h apps"
  shows "merged_pptc h apps t =
     (if \<forall>a \<in> set apps. pptc_of h (pptc a) t = None then None
      else Some (\<Union>a \<in> set apps. paths_of h a t))"
  unfolding merged_pptc_foldl [OF assms] foldl_pptc_update
  by (simp add: paths_of_def)

lemma first_call:
  fixes ret :: "('f, 'c, 'o) call list \<Rightarrow> 'o list"
  shows "hd (calls (compose_apps ret rorder h apps topo nc em fm ws)) = Init topo (merged_pptc h apps)"
  using compose_apps_calls [of ret rorder h apps topo nc em fm ws] by auto

lemma final_heap_frame:
  fixes ret :: "('f, 'c, 'o) call list \<Rightarrow> 'o list"
  shows "pptc_of (final_heap (compose_apps ret rorder h apps topo nc em fm ws)) (next_addr h) =
           merged_pptc h apps \<and>
         rc_of (final_heap (compose_apps ret rorder h apps topo nc em fm ws)) = rc_of h \<and>
         (\<forall>x < next_addr h.
            pptc_of (final_heap (compose_apps ret rorder h apps topo nc em fm ws)) x = pptc_of h x \<and>
            dict_of (final_heap (compose_apps ret rorder h apps topo nc em fm ws)) x = dict_of h x)"
proof -
  let ?out = "compose_apps ret rorder h apps topo nc em fm ws"
  let ?cl = "consume_loop h apps topo (merged_pptc h apps) rorder :: ('f, 'c, 'o) call list \<times> error option"
  let ?pre = "Init topo (merged_pptc h apps) # fst ?cl @ cap_calls nc @ named_constraint_calls apps"
  obtain h1 p where m: "merge_pptc h apps = (h1, p)" by (cases "merge_pptc h apps")
  have f: "fst (merge_pptc h apps) = h1" by (simp add: m)
  note fr = merge_pptc_frame [OF m]
  have mp: "pptc_of h1 (next_addr h) = merged_pptc h apps"
    using fr(1) by (simp add: merged_pptc_def m)
  have h1: "rc_of h1 = rc_of h" "\<forall>x < next_addr h. pptc_of h1 x = pptc_of h x \<and> dict_of h1 x = dict_of h x"
    using fr(2,3,5) by simp_all
  have goal: "pptc_of g (next_addr h) = merged_pptc h apps \<and> rc_of g = rc_of h \<and>
      (\<forall>x < next_addr h. pptc_of g x = pptc_of h x \<and> dict_of g x = dict_of h x)"
    if "pptc_of g = pptc_of h1" "rc_of g = rc_of h1"
      "\<forall>x < next_addr h1. dict_of g x = dict_of h1 x" for g
    using that mp h1 fr(4) by simp
  show ?thesis
  proof (cases "snd ?cl")
    case (Some e)
    from compose_apps_failed_resources(3) [OF Some, of ret nc em fm ws] goal [of h1] show ?thesis
      by (simp add: f)
  next
    case None
    show ?thesis
    proof (cases "compute_weights apps ws")
      case (Inl e)
      from compose_apps_failed_weights(3) [OF None Inl, of ret nc em fm] goal [of h1] show ?thesis
        by (simp add: f)
    next
      case (Inr w)
      obtain h2 cs2 objs where
        ao: "add_objectives ret apps (fst (merge_pptc h apps)) ?pre [] = (h2, cs2, objs)"
        by (cases "add_objectives ret apps (fst (merge_pptc h apps)) ?pre []")
      from add_objectives_frame [OF ao] have "pptc_of h2 = pptc_of h1" "rc_of h2 = rc_of h1"
        "\<forall>x < next_addr h1. dict_of h2 x = dict_of h1 x" by (simp_all add: f)
      from goal [OF this] compose_apps_returned(3) [OF None Inr ao, of em fm] show ?thesis by simp
    qed
  qed
qed

text \<open>
  C2. On a well-formed store, the merged path set maps every traffic class that some
  application has to the union of the path sets the applications have for it, and no
  other class to anything; merging the applications twice gives the same. It is the
  path set the builder is constructed with, and the object \<open>all_pptc\<close> of the final store.
\<close>

theorem C2_merged_paths_union:
  fixes ret :: "('f, 'c, 'o) call list \<Rightarrow> 'o list"
  assumes "allocated h apps"
  shows "(\<forall>t. (\<exists>a \<in> set apps. pptc_of h (pptc a) t \<noteq> None) \<longrightarrow>
              merged_pptc h apps t = Some (\<Union>a \<in> set apps. paths_of h a t)) \<and>
         (\<forall>t. (\<forall>a \<in> set apps. pptc_of h (pptc a) t = None) \<longrightarrow> merged_pptc h apps t = None) \<and>
         merged_pptc h (apps @ apps) = merged_pptc h apps \<and>
         hd (calls (compose_apps ret rorder h apps topo nc em fm ws)) = Init topo (merged_pptc h apps) \<and>
         pptc_of (final_heap (compose_apps ret rorder h apps topo nc em fm ws)) (next_addr h) =
           merged_pptc h apps"
proof -
  have al2: "allocated h (apps @ apps)" using assms by (auto simp: allocated_def)
  have "merged_pptc h (apps @ apps) t = merged_pptc h apps t" for t
    by (simp add: merged_pptc_union [OF al2] merged_pptc_union [OF assms])
  then have idem: "merged_pptc h (apps @ apps) = merged_pptc h apps" by (rule ext)
  show ?thesis
    using idem first_call [of ret rorder h apps topo nc em fm ws]
      final_heap_frame [of ret rorder h apps topo nc em fm ws]
    by (simp add: merged_pptc_union [OF assms])
qed

theorem C2_merged_paths_witness:
  "allocated ex_heap [ex_appA, ex_appB] \<and>
   pptc_of ex_heap (pptc ex_appA) 1 = Some {[1, 2], [1, 3, 2]} \<and>
   pptc_of ex_heap (pptc ex_appB) 1 = Some {[1, 2], [1, 4, 2]} \<and>
   merged_pptc ex_heap [ex_appA, ex_appB] 1 = Some {[1, 2], [1, 3, 2], [1, 4, 2]} \<and>
   merged_pptc ex_heap [ex_appA, ex_appB] 2 = Some {[2, 3]} \<and>
   merged_pptc ex_heap [ex_appA, ex_appB] 3 = None \<and>
   merged_pptc ex_heap [ex_appA, ex_appA] = merged_pptc ex_heap [ex_appA] \<and>
   hd (calls ex_run) = Init ex_topo (merged_pptc ex_heap [ex_appA, ex_appB])"
proof -
  have al: "allocated ex_heap [ex_appA, ex_appB]" and al1: "allocated ex_heap [ex_appA]"
    by (simp_all add: allocated_def ex_defs)
  have a: "pptc_of ex_heap (pptc ex_appA) = [1 \<mapsto> {[1, 2], [1, 3, 2]}]"
    and b: "pptc_of ex_heap (pptc ex_appB) = [1 \<mapsto> {[1, 2], [1, 4, 2]}, 2 \<mapsto> {[2, 3]}]"
    by (simp_all add: ex_defs)
  note c2 = C2_merged_paths_union [OF al, of ex_ret "[''cpu'', ''bw'', ''lat'']" ex_topo None AVG WEIGHTED None]
  from c2 have m1: "merged_pptc ex_heap [ex_appA, ex_appB] 1 = Some {[1, 2], [1, 3, 2], [1, 4, 2]}"
    by (auto simp: a b paths_of_def)
  from c2 have m2: "merged_pptc ex_heap [ex_appA, ex_appB] 2 = Some {[2, 3]}"
    by (auto simp: a b paths_of_def)
  from c2 have m3: "merged_pptc ex_heap [ex_appA, ex_appB] 3 = None"
    by (simp add: a b)
  from c2 have i: "hd (calls ex_run) = Init ex_topo (merged_pptc ex_heap [ex_appA, ex_appB])"
    by (simp add: ex_run_def)
  from C2_merged_paths_union [OF al1, of ex_ret "[''cpu'', ''bw'']" ex_topo None AVG WEIGHTED None]
  have idem: "merged_pptc ex_heap [ex_appA, ex_appA] = merged_pptc ex_heap [ex_appA]" by simp
  from al m1 m2 m3 i idem show ?thesis by (simp add: a b)
qed

subsection \<open>C10: the applications are left as they were\<close>

text \<open>
  C10. On a well-formed store, whatever the outcome, the path set, the resource-cost
  table and the keyword options of every application hold after the run what they held
  before. When \<open>compose_apps\<close> returns, the builder has nevertheless received the
  application's objective call with \<open>varname\<close> and \<open>tcs\<close> added: they were added to a
  copy.
\<close>

theorem C10_applications_unchanged:
  fixes ret :: "('f, 'c, 'o) call list \<Rightarrow> 'o list"
  assumes "allocated h apps"
  shows "\<forall>a \<in> set apps.
           pptc_of (final_heap (compose_apps ret rorder h apps topo nc em fm ws)) (pptc a) =
             pptc_of h (pptc a) \<and>
           rc_of (final_heap (compose_apps ret rorder h apps topo nc em fm ws)) (resource_cost a) =
             rc_of h (resource_cost a) \<and>
           dict_of (final_heap (compose_apps ret rorder h apps topo nc em fm ws)) (obj_kwargs a) =
             dict_of h (obj_kwargs a) \<and>
           (raised (compose_apps ret rorder h apps topo nc em fm ws) = None \<longrightarrow>
              objective_call h a \<in> set (calls (compose_apps ret rorder h apps topo nc em fm ws)))"
proof
  fix a assume a: "a \<in> set apps"
  let ?out = "compose_apps ret rorder h apps topo nc em fm ws"
  from a assms have lt: "pptc a < next_addr h" "obj_kwargs a < next_addr h"
    by (auto simp: allocated_def)
  note fr = final_heap_frame [of ret rorder h apps topo nc em fm ws]
  have sent: "objective_call h a \<in> set (calls ?out)" if "raised ?out = None"
  proof -
    from returned_calls [OF that assms] obtain pre objs w where
      "calls ?out = pre @ map (objective_call h) apps @ [ComposeObjectives objs em fm w]"
      by blast
    with a show ?thesis by simp
  qed
  from fr lt sent show "pptc_of (final_heap ?out) (pptc a) = pptc_of h (pptc a) \<and>
      rc_of (final_heap ?out) (resource_cost a) = rc_of h (resource_cost a) \<and>
      dict_of (final_heap ?out) (obj_kwargs a) = dict_of h (obj_kwargs a) \<and>
      (raised ?out = None \<longrightarrow> objective_call h a \<in> set (calls ?out))"
    by simp
qed

theorem C10_applications_unchanged_witness:
  "allocated ex_heap [ex_appA, ex_appB] \<and> raised ex_run = None \<and>
   pptc_of (final_heap ex_run) (pptc ex_appA) = [1 \<mapsto> {[1, 2], [1, 3, 2]}] \<and>
   rc_of (final_heap ex_run) (resource_cost ex_appA) =
     [''bw'' \<mapsto> (100, NODES), ''cpu'' \<mapsto> (101, NODES)] \<and>
   dict_of (final_heap ex_run) (obj_kwargs ex_appA) = [''k'' \<mapsto> PyNum 1] \<and>
   AddSingleObjective (PyStr ''minlatency'') []
     [''k'' \<mapsto> PyNum 1, ''varname'' \<mapsto> PyStr ''A'', ''tcs'' \<mapsto> PyTcs [1]] \<in> set (calls ex_run)"
proof -
  have al: "allocated ex_heap [ex_appA, ex_appB]" by (simp add: allocated_def ex_defs)
  have ok: "raised (compose_apps ex_ret [''cpu'', ''bw'', ''lat''] ex_heap [ex_appA, ex_appB] ex_topo
              None AVG WEIGHTED None) = None"
    by (simp add: run_defs ex_defs)
  have a: "pptc_of ex_heap (pptc ex_appA) = [1 \<mapsto> {[1, 2], [1, 3, 2]}]"
    "rc_of ex_heap (resource_cost ex_appA) = [''bw'' \<mapsto> (100, NODES), ''cpu'' \<mapsto> (101, NODES)]"
    "dict_of ex_heap (obj_kwargs ex_appA) = [''k'' \<mapsto> PyNum 1]"
    by (simp_all add: ex_defs)
  have oc: "objective_call ex_heap ex_appA = (AddSingleObjective (PyStr ''minlatency'') []
        [''k'' \<mapsto> PyNum 1, ''varname'' \<mapsto> PyStr ''A'', ''tcs'' \<mapsto> PyTcs [1]] :: (nat, nat, nat) call)"
    by (simp add: objective_call_def ex_defs)
  from C10_applications_unchanged [OF al, of ex_ret "[''cpu'', ''bw'', ''lat'']" ex_topo None AVG WEIGHTED None]
  have "pptc_of (final_heap ex_run) (pptc ex_appA) = pptc_of ex_heap (pptc ex_appA) \<and>
      rc_of (final_heap ex_run) (resource_cost ex_appA) = rc_of ex_heap (resource_cost ex_appA) \<and>
      dict_of (final_heap ex_run) (obj_kwargs ex_appA) = dict_of ex_heap (obj_kwargs ex_appA) \<and>
      (raised ex_run = None \<longrightarrow> objective_call ex_heap ex_appA \<in> set (calls ex_run))"
    unfolding ex_run_def by simp
  with ok al show ?thesis by (simp add: a oc ex_run_def)
qed

end
